theory Spec2Isabelle
  imports Main "HOL-Library.Sublist" "HOL-Library.Signed_Division"
begin

section \<open>Strings and the library functions the code calls\<close>

text \<open>
  A Go string is a sequence of bytes; \<^typ>\<open>string\<close> is a list of 8-bit characters.
  The functions of this section stand for the Go standard library functions the
  repository calls (\<open>strings.HasSuffix\<close>, \<open>strings.TrimSpace\<close>, \<open>bufio.Scanner\<close> with
  its default line splitting, \<open>regexp.MatchString\<close> on the one pattern that is used,
  \<open>strconv.ParseInt\<close> in base 10 at 64 bits).
\<close>

definition HasSuffix :: "string \<Rightarrow> string \<Rightarrow> bool" where
  "HasSuffix s suf \<longleftrightarrow>
     length suf \<le> length s \<and> drop (length s - length suf) s = suf"

definition HasPrefix :: "string \<Rightarrow> string \<Rightarrow> bool" where
  "HasPrefix s pre \<longleftrightarrow> length pre \<le> length s \<and> take (length pre) s = pre"

text \<open>
  \<open>unicode.IsSpace\<close> holds of the code points U+0009..U+000D, U+0020, U+0085, U+00A0,
  U+1680, U+2000..U+200A, U+2028, U+2029, U+202F, U+205F and U+3000. \<open>white_space\<close>
  lists their UTF-8 encodings; \<open>strings.TrimSpace\<close> removes every leading and every
  trailing occurrence of one of them.
\<close>

definition white_space :: "string list" where
  "white_space =
     [[CHR 0x09], [CHR 0x0A], [CHR 0x0B], [CHR 0x0C], [CHR 0x0D], [CHR 0x20],
      [CHR 0xC2, CHR 0x85], [CHR 0xC2, CHR 0xA0],
      [CHR 0xE1, CHR 0x9A, CHR 0x80],
      [CHR 0xE2, CHR 0x80, CHR 0x80], [CHR 0xE2, CHR 0x80, CHR 0x81],
      [CHR 0xE2, CHR 0x80, CHR 0x82], [CHR 0xE2, CHR 0x80, CHR 0x83],
      [CHR 0xE2, CHR 0x80, CHR 0x84], [CHR 0xE2, CHR 0x80, CHR 0x85],
      [CHR 0xE2, CHR 0x80, CHR 0x86], [CHR 0xE2, CHR 0x80, CHR 0x87],
      [CHR 0xE2, CHR 0x80, CHR 0x88], [CHR 0xE2, CHR 0x80, CHR 0x89],
      [CHR 0xE2, CHR 0x80, CHR 0x8A],
      [CHR 0xE2, CHR 0x80, CHR 0xA8], [CHR 0xE2, CHR 0x80, CHR 0xA9],
      [CHR 0xE2, CHR 0x80, CHR 0xAF], [CHR 0xE2, CHR 0x81, CHR 0x9F],
      [CHR 0xE3, CHR 0x80, CHR 0x80]]"

function strip :: "string list \<Rightarrow> string \<Rightarrow> string" where
  "strip ws s =
     (case filter (\<lambda>w. w \<noteq> [] \<and> HasPrefix s w) ws of
        [] \<Rightarrow> s
      | w # _ \<Rightarrow> strip ws (drop (length w) s))"
  by pat_completeness auto
termination
proof (relation "measure (\<lambda>(ws, s). length s)", goal_cases)
  case 1
  show ?case by simp
next
  case (2 ws s w rest)
  then have "w \<in> set (filter (\<lambda>w. w \<noteq> [] \<and> HasPrefix s w) ws)"
    by simp
  then have "w \<noteq> []" and "length w \<le> length s"
    by (auto simp: HasPrefix_def)
  then show ?case by (cases w) auto
qed

definition TrimSpace :: "string \<Rightarrow> string" where
  "TrimSpace s = rev (strip (map rev white_space) (rev (strip white_space s)))"

text \<open>
  \<open>bufio.Scanner\<close> with the default split function \<open>bufio.ScanLines\<close>: the input is cut
  at every line feed, a last line without line feed is a token when it is not empty, and
  one trailing carriage return is dropped from each token. The scanner's buffer holds at
  most \<open>bufio.MaxScanTokenSize\<close> bytes: at a line of that many bytes or more \<open>Scan\<close>
  returns false and the scan ends there (\<open>Statements\<close> does not look at \<open>scanner.Err()\<close>).
\<close>

fun split_lines :: "string \<Rightarrow> string \<Rightarrow> string list" where
  "split_lines cur [] = (if cur = [] then [] else [cur])"
| "split_lines cur (c # cs) =
     (if c = CHR 0x0A then cur # split_lines [] cs else split_lines (cur @ [c]) cs)"

definition dropCR :: "string \<Rightarrow> string" where
  "dropCR l = (if l \<noteq> [] \<and> last l = CHR 0x0D then butlast l else l)"

definition MaxScanTokenSize :: nat where
  "MaxScanTokenSize = 64 * 1024"

definition ScanLines :: "string \<Rightarrow> string list" where
  "ScanLines script =
     map dropCR (takeWhile (\<lambda>l. length l < MaxScanTokenSize) (split_lines [] script))"

text \<open>
  \<open>regexp.MatchString("CREATE( TEMP| TEMPORARY)? TRIGGER.*", line)\<close>: the pattern is not
  anchored and \<open>.*\<close> matches the empty string, so the line matches exactly when it
  contains \<open>CREATE\<close>, then nothing or \<open> TEMP\<close> or \<open> TEMPORARY\<close>, then \<open> TRIGGER\<close>. The
  pattern compiles, so the error result is always nil.
\<close>

fun contains :: "string \<Rightarrow> string \<Rightarrow> bool" where
  "contains [] sub \<longleftrightarrow> sub = []"
| "contains (c # cs) sub \<longleftrightarrow> HasPrefix (c # cs) sub \<or> contains cs sub"

definition MatchCreateTrigger :: "string \<Rightarrow> bool" where
  "MatchCreateTrigger line \<longleftrightarrow>
     contains line ''CREATE TRIGGER'' \<or>
     contains line ''CREATE TEMP TRIGGER'' \<or>
     contains line ''CREATE TEMPORARY TRIGGER''"

section \<open>The statement splitter\<close>

record StatementBuilder =
  createTrigger :: bool
  terminated :: bool
  buffer :: string

definition NewStatementBuilder :: StatementBuilder where
  "NewStatementBuilder = \<lparr>createTrigger = False, terminated = False, buffer = []\<rparr>"

definition Append :: "StatementBuilder \<Rightarrow> string \<Rightarrow> StatementBuilder" where
  "Append b raw =
     (let line = TrimSpace raw;
          b1 = (if length (buffer b) = 0
                then b\<lparr>createTrigger := MatchCreateTrigger line\<rparr>
                else b\<lparr>buffer := buffer b @ [CHR 0x0A]\<rparr>);
          b2 = b1\<lparr>buffer := buffer b1 @ line\<rparr>
      in if createTrigger b2
         then b2\<lparr>terminated := HasSuffix line ''END;''\<rparr>
         else b2\<lparr>terminated := HasSuffix line '';''\<rparr>)"

definition IsTerminated :: "StatementBuilder \<Rightarrow> bool" where
  "IsTerminated b = terminated b"

definition Statement :: "StatementBuilder \<Rightarrow> string" where
  "Statement b = buffer b"

text \<open>
  The loop of \<open>Statements\<close> over the scanner's tokens. Its state is the slice \<open>ss\<close> of
  the statements found so far and the builder of the statement in progress; the
  function returns both as they are when the scanner is exhausted, and \<open>Statements\<close>
  returns the slice alone.
\<close>

fun Statements_loop ::
  "string list \<Rightarrow> StatementBuilder \<Rightarrow> string list \<Rightarrow> string list \<times> StatementBuilder" where
  "Statements_loop ss builder [] = (ss, builder)"
| "Statements_loop ss builder (l # ls) =
     (let builder' = Append builder l
      in if IsTerminated builder'
         then Statements_loop (ss @ [Statement builder']) NewStatementBuilder ls
         else Statements_loop ss builder' ls)"

definition Statements :: "string \<Rightarrow> string list" where
  "Statements script = fst (Statements_loop [] NewStatementBuilder (ScanLines script))"

text \<open>
  Notions used to state the properties of the splitter: the builder that is in progress
  when the input ends, whether a sequence of lines fed to a builder ever terminates a
  statement, and the text obtained by joining lines with a separator (as
  \<open>strings.Join\<close> does).
\<close>

definition pending :: "string \<Rightarrow> StatementBuilder" where
  "pending script = snd (Statements_loop [] NewStatementBuilder (ScanLines script))"

fun unterminated :: "StatementBuilder \<Rightarrow> string list \<Rightarrow> bool" where
  "unterminated b [] \<longleftrightarrow> True"
| "unterminated b (l # ls) \<longleftrightarrow> \<not> IsTerminated (Append b l) \<and> unterminated (Append b l) ls"

fun Join :: "string list \<Rightarrow> string \<Rightarrow> string" where
  "Join [] sep = []"
| "Join [x] sep = x"
| "Join (x # y # ys) sep = x @ sep @ Join (y # ys) sep"

definition first_line :: "string \<Rightarrow> string" where
  "first_line s = takeWhile (\<lambda>c. c \<noteq> CHR 0x0A) s"

section \<open>Versions and their comparison\<close>

text \<open>
  \<open>strconv.ParseUint(s, 10, 64)\<close> and \<open>strconv.ParseInt(s, 10, 64)\<close>. Both return a
  value together with an error; \<open>LEQ\<close> drops the error and keeps the value. On a syntax
  error the value is 0. On a range error \<open>ParseUint\<close> returns at once with the largest
  value, before it looks at the rest of the string, and \<open>ParseInt\<close> returns the nearest
  bound of the 64-bit range.
\<close>

datatype NumError = ErrSyntax | ErrRange

definition digit :: "char \<Rightarrow> nat option" where
  "digit c =
     (if (of_char (CHR ''0'') :: nat) \<le> of_char c \<and> (of_char c :: nat) \<le> of_char (CHR ''9'')
      then Some (of_char c - of_char (CHR ''0''))
      else None)"

definition maxUint64 :: nat where
  "maxUint64 = 2 ^ 64 - 1"

fun ParseUint_loop :: "nat \<Rightarrow> string \<Rightarrow> nat \<times> NumError option" where
  "ParseUint_loop n [] = (n, None)"
| "ParseUint_loop n (c # cs) =
     (case digit c of
        None \<Rightarrow> (0, Some ErrSyntax)
      | Some d \<Rightarrow>
          if n \<ge> maxUint64 div 10 + 1 then (maxUint64, Some ErrRange)
          else
            (let n10 = n * 10;
                 n1 = (n10 + d) mod 2 ^ 64
             in if n1 < n10 \<or> n1 > maxUint64 then (maxUint64, Some ErrRange)
                else ParseUint_loop n1 cs))"

definition ParseUint :: "string \<Rightarrow> nat \<times> NumError option" where
  "ParseUint s = (if s = [] then (0, Some ErrSyntax) else ParseUint_loop 0 s)"

definition ParseInt :: "string \<Rightarrow> int \<times> NumError option" where
  "ParseInt s =
     (if s = [] then (0, Some ErrSyntax)
      else
        (let neg = (hd s = CHR ''-'');
             s1 = (if hd s = CHR ''+'' \<or> hd s = CHR ''-'' then tl s else s);
             (un, err) = ParseUint s1;
             cutoff = 2 ^ 63
         in if err = Some ErrSyntax then (0, err)
            else if \<not> neg \<and> un \<ge> cutoff then (int cutoff - 1, Some ErrRange)
            else if neg \<and> un > cutoff then (- int cutoff, Some ErrRange)
            else (if neg then - int un else int un, None)))"

type_synonym Version = string
type_synonym Status = string
type_synonym Type = string

definition LEQ :: "Version \<Rightarrow> Version \<Rightarrow> bool" where
  "LEQ a b \<longleftrightarrow> fst (ParseInt a) \<le> fst (ParseInt b)"

definition VersionNone :: Version where
  "VersionNone = []"

definition VersionRepeatable :: Version where
  "VersionRepeatable = ''R''"

definition StatusSuccess :: Status where
  "StatusSuccess = ''success''"

definition StatusFailed :: Status where
  "StatusFailed = ''failed''"

definition TypeGo :: Type where
  "TypeGo = ''Go''"

definition TypeSQL :: Type where
  "TypeSQL = ''SQL''"

definition TypeBaseline :: Type where
  "TypeBaseline = ''Baseline''"

section \<open>Migrations, the adapter and the migrator\<close>

text \<open>
  A Go \<open>error\<close> is its message, \<open>None\<close> is \<open>nil\<close>. The type variable \<open>'db\<close> is the state
  of everything behind the handle \<open>m.db\<close> that the calls below read or change: the
  database and, for \<open>time.Now\<close>, the wall clock. Every call that touches it takes the
  state and returns the new one. \<open>Date\<close> is a time in nanoseconds; \<open>Rank\<close> and
  \<open>ExecutionTime\<close> are Go \<open>int\<close>s, modelled as unbounded integers (a rank is only ever
  incremented by one per registered migration).
\<close>

type_synonym error = "string option"

type_synonym 'db CommandFunc = "'db \<Rightarrow> error \<times> 'db"

record 'db Migration =
  Rank :: int
  Version :: Version
  Description :: string
  Type :: Type
  Checksum :: string
  Date :: int
  ExecutionTime :: int
  Status :: Status
  Execute :: "'db CommandFunc option"

definition IsRepeatable :: "'db Migration \<Rightarrow> bool" where
  "IsRepeatable m \<longleftrightarrow> Version m = VersionRepeatable"

definition Migration_String :: "'db Migration \<Rightarrow> string" where
  "Migration_String m =
     ''@Migration|version='' @ Version m @ ''|description='' @ Description m
       @ ''|type='' @ Type m"

record 'db Support =
  ExistsMigrationsTable :: "'db \<Rightarrow> (bool \<times> error) \<times> 'db"
  CreateMigrationsTable :: "'db \<Rightarrow> error \<times> 'db"
  RecordMigration :: "'db \<Rightarrow> 'db Migration \<Rightarrow> error \<times> 'db"
  ListMigrations :: "'db \<Rightarrow> ('db Migration list \<times> error) \<times> 'db"
  Clean :: "'db \<Rightarrow> error \<times> 'db"

text \<open>
  The fields \<open>log\<close> and \<open>db\<close> of the Go struct are not fields here: the state behind
  \<open>db\<close> is threaded through the calls, and what is passed to \<open>log\<close> is part of the list
  of events a call returns. \<open>now\<close> stands for \<open>time.Now\<close>, read from the state.
\<close>

record 'db Migrator =
  support :: "'db Support"
  now :: "'db \<Rightarrow> int"
  migrations :: "'db Migration list"
  repeatable :: "'db Migration list"

definition NewMigrator :: "('db \<Rightarrow> int) \<Rightarrow> 'db Support \<Rightarrow> 'db Migrator" where
  "NewMigrator clock adapter =
     \<lparr>support = adapter, now = clock, migrations = [], repeatable = []\<rparr>"

definition Add :: "'db Migrator \<Rightarrow> 'db Migration \<Rightarrow> 'db Migrator" where
  "Add m mig =
     (if IsRepeatable mig then m\<lparr>repeatable := repeatable m @ [mig]\<rparr>
      else m\<lparr>migrations := migrations m @ [mig]\<rparr>)"

definition AddGoMigration ::
  "'db Migrator \<Rightarrow> Version \<Rightarrow> string \<Rightarrow> 'db CommandFunc option \<Rightarrow> 'db Migrator" where
  "AddGoMigration m version description execute =
     Add m \<lparr>Rank = 0, Version = version, Description = description, Type = TypeGo,
            Checksum = [], Date = 0, ExecutionTime = 0, Status = [], Execute = execute\<rparr>"

definition AddRepeatableGoMigration ::
  "'db Migrator \<Rightarrow> string \<Rightarrow> 'db CommandFunc option \<Rightarrow> 'db Migrator" where
  "AddRepeatableGoMigration m description execute =
     AddGoMigration m VersionRepeatable description execute"

text \<open>
  The callable of a SQL migration runs the statements of the script in order and stops
  at the first one that fails. \<open>exec\<close> stands for \<open>db.Exec\<close> on one statement and
  \<open>checksum\<close> for \<open>SQLChecksum\<close> (the hexadecimal MD5 digest of the script).
\<close>

fun exec_statements :: "('db \<Rightarrow> string \<Rightarrow> error \<times> 'db) \<Rightarrow> string list \<Rightarrow> 'db CommandFunc" where
  "exec_statements exec [] db = (None, db)"
| "exec_statements exec (stmt # rest) db =
     (case exec db stmt of
        (Some err, db') \<Rightarrow> (Some err, db')
      | (None, db') \<Rightarrow> exec_statements exec rest db')"

definition AddSQLMigration ::
  "('db \<Rightarrow> string \<Rightarrow> error \<times> 'db) \<Rightarrow> (string \<Rightarrow> string) \<Rightarrow>
   'db Migrator \<Rightarrow> Version \<Rightarrow> string \<Rightarrow> string \<Rightarrow> 'db Migrator" where
  "AddSQLMigration exec checksum m version description script =
     Add m \<lparr>Rank = 0, Version = version, Description = description, Type = TypeSQL,
            Checksum = checksum script, Date = 0, ExecutionTime = 0, Status = [],
            Execute = Some (exec_statements exec (Statements script))\<rparr>"

definition AddRepeatableSQLMigration ::
  "('db \<Rightarrow> string \<Rightarrow> error \<times> 'db) \<Rightarrow> (string \<Rightarrow> string) \<Rightarrow>
   'db Migrator \<Rightarrow> string \<Rightarrow> string \<Rightarrow> 'db Migrator" where
  "AddRepeatableSQLMigration exec checksum m description script =
     AddSQLMigration exec checksum m VersionRepeatable description script"

text \<open>
  What a call does to the outside, in program order: the lines passed to \<open>log\<close>, the
  calls of the adapter with their results, and the calls of the migrations' callables
  with their results.
\<close>

datatype 'db event =
    Log string
  | CallExists bool error
  | CallCreate error
  | CallList "'db Migration list" error
  | CallRecord "'db Migration" error
  | CallExecute "'db Migration" error
  | CallClean error

definition install ::
  "'db Migrator \<Rightarrow> 'db Migration \<Rightarrow> 'db \<Rightarrow> error \<times> 'db \<times> 'db event list" where
  "install m mig db =
     (case Execute mig of
        None \<Rightarrow> (Some (''cannot execute migration: '' @ Migration_String mig), db, [])
      | Some execute \<Rightarrow>
          (let mig1 = mig\<lparr>Date := now m db\<rparr>;
               (err, db1) = execute db;
               mig2 = mig1\<lparr>ExecutionTime := (now m db1 - Date mig1) sdiv 1000000\<rparr>;
               mig3 = mig2\<lparr>Status := (if err = None then StatusSuccess else StatusFailed)\<rparr>;
               (rErr, db2) = RecordMigration (support m) db1 mig3;
               tr = [Log (''installing: '' @ Migration_String mig),
                     CallExecute mig1 err, CallRecord mig3 rErr]
           in case rErr of
                Some r \<Rightarrow>
                  (Some (''record migration: '' @ Migration_String mig3 @ '': '' @ r), db2, tr)
              | None \<Rightarrow> (err, db2, tr)))"

text \<open>
  The statements that open \<open>Migrate\<close> and \<open>Baseline\<close> alike: create the table when it
  does not exist, then read the history.
\<close>

definition load_history ::
  "'db Support \<Rightarrow> 'db \<Rightarrow> error \<times> 'db Migration list \<times> 'db \<times> 'db event list" where
  "load_history s db =
     (let ((exists, err), db1) = ExistsMigrationsTable s db;
          tr1 = [CallExists exists err]
      in if err \<noteq> None then (err, [], db1, tr1)
         else
           (let (cerr, db2) = (if \<not> exists then CreateMigrationsTable s db1 else (None, db1));
                tr2 = (if \<not> exists then tr1 @ [CallCreate cerr] else tr1)
            in if cerr \<noteq> None then (cerr, [], db2, tr2)
               else
                 (let ((installed, lerr), db3) = ListMigrations s db2;
                      tr3 = tr2 @ [CallList installed lerr]
                  in if lerr \<noteq> None then (lerr, [], db3, tr3)
                     else (None, installed, db3, tr3))))"

text \<open>
  The first loop of \<open>Migrate\<close>, over the history read: the state is \<open>rank\<close>,
  \<open>lastInstalled\<close> and \<open>checksumsRepeatable\<close>.
\<close>

fun scan ::
  "'db Migration list \<Rightarrow> int \<times> Version \<times> (string \<rightharpoonup> string) \<Rightarrow>
   string + int \<times> Version \<times> (string \<rightharpoonup> string)" where
  "scan [] st = Inr st"
| "scan (mig # rest) (rank, lastInstalled, checksums) =
     (if IsRepeatable mig
      then scan rest (Rank mig, lastInstalled, checksums(Description mig \<mapsto> Checksum mig))
      else if Status mig = StatusFailed
      then Inl (''detected a failed migration: '' @ Migration_String mig)
      else if Status mig = StatusSuccess
      then scan rest (Rank mig, Version mig, checksums)
      else Inl (''unknown status in migration: '' @ Migration_String mig))"

text \<open>The loop over \<open>m.migrations\<close>; it returns the rank it has reached.\<close>

fun install_pending ::
  "'db Migrator \<Rightarrow> Version \<Rightarrow> 'db Migration list \<Rightarrow> int \<Rightarrow> 'db \<Rightarrow>
   error \<times> int \<times> 'db \<times> 'db event list" where
  "install_pending m lastInstalled [] rank db = (None, rank, db, [])"
| "install_pending m lastInstalled (mig # rest) rank db =
     (if LEQ (Version mig) lastInstalled
      then
        (let (err, rank', db', tr) = install_pending m lastInstalled rest rank db
         in (err, rank', db',
             Log (''skipping installed migration: '' @ Version mig @ '' - '' @ Description mig)
               # tr))
      else
        (let rank1 = rank + 1;
             (err, db1, tr1) = install m (mig\<lparr>Rank := rank1\<rparr>) db
         in if err \<noteq> None then (err, rank1, db1, tr1)
            else
              (let (err', rank', db', tr) = install_pending m lastInstalled rest rank1 db1
               in (err', rank', db', tr1 @ tr))))"

text \<open>The loop over \<open>m.repeatable\<close>.\<close>

fun install_repeatable ::
  "'db Migrator \<Rightarrow> (string \<rightharpoonup> string) \<Rightarrow> 'db Migration list \<Rightarrow> int \<Rightarrow> 'db \<Rightarrow>
   error \<times> int \<times> 'db \<times> 'db event list" where
  "install_repeatable m checksums [] rank db = (None, rank, db, [])"
| "install_repeatable m checksums (mig # rest) rank db =
     (if checksums (Description mig) = Some (Checksum mig)
      then
        (let (err, rank', db', tr) = install_repeatable m checksums rest rank db
         in (err, rank', db',
             Log (''skipping repeatable migration: '' @ Description mig) # tr))
      else
        (let rank1 = rank + 1;
             (err, db1, tr1) = install m (mig\<lparr>Rank := rank1\<rparr>) db
         in if err \<noteq> None then (err, rank1, db1, tr1)
            else
              (let (err', rank', db', tr) = install_repeatable m checksums rest rank1 db1
               in (err', rank', db', tr1 @ tr))))"

definition Migrate :: "'db Migrator \<Rightarrow> 'db \<Rightarrow> error \<times> 'db \<times> 'db event list" where
  "Migrate m db =
     (case load_history (support m) db of
        (Some err, installed, db1, tr1) \<Rightarrow> (Some err, db1, tr1)
      | (None, installed, db1, tr1) \<Rightarrow>
          (case scan installed (0, VersionNone, Map.empty) of
             Inl err \<Rightarrow> (Some err, db1, tr1)
           | Inr (rank, lastInstalled, checksumsRepeatable) \<Rightarrow>
               (let (err, rank1, db2, tr2) =
                      install_pending m lastInstalled (migrations m) rank db1
                in if err \<noteq> None then (err, db2, tr1 @ tr2)
                   else
                     (let (err', rank2, db3, tr3) =
                            install_repeatable m checksumsRepeatable (repeatable m) rank1 db2
                      in (err', db3, tr1 @ tr2 @ tr3)))))"

definition Clean_all :: "'db Migrator \<Rightarrow> 'db \<Rightarrow> error \<times> 'db \<times> 'db event list" where
  "Clean_all m db = (let (err, db1) = Clean (support m) db in (err, db1, [CallClean err]))"

definition Baseline ::
  "'db Migrator \<Rightarrow> Version \<Rightarrow> string \<Rightarrow> 'db \<Rightarrow> error \<times> 'db \<times> 'db event list" where
  "Baseline m version description db =
     (case load_history (support m) db of
        (Some err, installed, db1, tr1) \<Rightarrow> (Some err, db1, tr1)
      | (None, installed, db1, tr1) \<Rightarrow>
          if length installed > 0
          then (Some ''unable to baseline: found existing migrations'', db1, tr1)
          else
            (let mig = \<lparr>Rank = 1, Version = version, Description = description,
                        Type = TypeBaseline, Checksum = [], Date = now m db1,
                        ExecutionTime = 0, Status = StatusSuccess, Execute = None\<rparr>;
                 (rErr, db2) = RecordMigration (support m) db1 mig;
                 (err, db3, tr3) = Migrate m db2
             in (err, db3, tr1 @ [CallRecord mig rErr] @ tr3)))"

section \<open>An adapter over a table in memory\<close>

text \<open>
  \<open>SQLiteSupport\<close> sends fixed SQL statements to the engine: a count on the schema
  table, \<open>CREATE TABLE migrations\<close>, one \<open>INSERT\<close> of the eight columns per record and
  one \<open>SELECT\<close> of the eight columns of all rows. \<open>MemSupport\<close> is an adapter that
  does the same on a table held in memory: the table is absent or a list of rows,
  \<open>RecordMigration\<close> adds a row at the end, \<open>ListMigrations\<close> returns the rows in
  that order with no callable bound, and the statements fail when the table they
  need is absent (or, for the creation, present). The constraint of the primary key
  is not part of it. \<open>objects\<close> are the other schema objects, which the migrations'
  callables create and \<open>Clean\<close> drops; \<open>clock\<close> is the wall clock.
\<close>

record row =
  col_rank :: int
  col_version :: string
  col_description :: string
  col_type :: string
  col_checksum :: string
  col_date :: int
  col_execution_time :: int
  col_status :: string

record store =
  table :: "row list option"
  objects :: "string list"
  clock :: int

definition to_row :: "'db Migration \<Rightarrow> row" where
  "to_row m =
     \<lparr>col_rank = Rank m, col_version = Version m, col_description = Description m,
      col_type = Type m, col_checksum = Checksum m, col_date = Date m,
      col_execution_time = ExecutionTime m, col_status = Status m\<rparr>"

definition of_row :: "row \<Rightarrow> 'db Migration" where
  "of_row r =
     \<lparr>Rank = col_rank r, Version = col_version r, Description = col_description r,
      Type = col_type r, Checksum = col_checksum r, Date = col_date r,
      ExecutionTime = col_execution_time r, Status = col_status r, Execute = None\<rparr>"

definition MemSupport :: "store Support" where
  "MemSupport =
     \<lparr>ExistsMigrationsTable = (\<lambda>db. ((table db \<noteq> None, None), db)),
      CreateMigrationsTable = (\<lambda>db.
        case table db of
          None \<Rightarrow> (None, db\<lparr>table := Some []\<rparr>)
        | Some rows \<Rightarrow> (Some ''table migrations already exists'', db)),
      RecordMigration = (\<lambda>db mig.
        case table db of
          None \<Rightarrow> (Some ''no such table: migrations'', db)
        | Some rows \<Rightarrow> (None, db\<lparr>table := Some (rows @ [to_row mig])\<rparr>)),
      ListMigrations = (\<lambda>db.
        case table db of
          None \<Rightarrow> (([], Some ''no such table: migrations''), db)
        | Some rows \<Rightarrow> ((map of_row rows, None), db)),
      Clean = (\<lambda>db. (None, db\<lparr>table := None, objects := []\<rparr>))\<rparr>"

definition MemMigrator :: "store Migration list \<Rightarrow> store Migration list \<Rightarrow> store Migrator" where
  "MemMigrator seq rep = \<lparr>support = MemSupport, now = clock, migrations = seq, repeatable = rep\<rparr>"

text \<open>The history of a store: the rows of its table, none when the table is absent.\<close>

definition history :: "store \<Rightarrow> row list" where
  "history db = (case table db of None \<Rightarrow> [] | Some rows \<Rightarrow> rows)"

text \<open>A callable that leaves the history table alone.\<close>

definition keeps_table :: "store Migration \<Rightarrow> bool" where
  "keeps_table mig \<longleftrightarrow>
     (case Execute mig of None \<Rightarrow> True | Some f \<Rightarrow> \<forall>db. table (snd (f db)) = table db)"

section \<open>Notions used to state the properties of the migrator\<close>

text \<open>
  The migrations whose callable a run has invoked, the records it has passed to the
  adapter, and those among them that the adapter has written without error.
\<close>

fun executed :: "'db event list \<Rightarrow> 'db Migration list" where
  "executed [] = []"
| "executed (e # es) = (case e of CallExecute mig err \<Rightarrow> mig # executed es | _ \<Rightarrow> executed es)"

fun recorded :: "'db event list \<Rightarrow> 'db Migration list" where
  "recorded [] = []"
| "recorded (e # es) = (case e of CallRecord mig err \<Rightarrow> mig # recorded es | _ \<Rightarrow> recorded es)"

fun written :: "'db event list \<Rightarrow> 'db Migration list" where
  "written [] = []"
| "written (e # es) =
     (case e of CallRecord mig None \<Rightarrow> mig # written es | _ \<Rightarrow> written es)"

text \<open>The errors that the adapter has returned during a run.\<close>

fun adapter_errors :: "'db event list \<Rightarrow> string list" where
  "adapter_errors [] = []"
| "adapter_errors (e # es) =
     (case e of
        CallExists b (Some err) \<Rightarrow> err # adapter_errors es
      | CallCreate (Some err) \<Rightarrow> err # adapter_errors es
      | CallList ms (Some err) \<Rightarrow> err # adapter_errors es
      | CallRecord mig (Some err) \<Rightarrow> err # adapter_errors es
      | CallClean (Some err) \<Rightarrow> err # adapter_errors es
      | _ \<Rightarrow> adapter_errors es)"

text \<open>The number a version is compared by.\<close>

definition version_number :: "Version \<Rightarrow> int" where
  "version_number v = fst (ParseInt v)"

text \<open>
  The registry as \<open>Add\<close> builds it: no sequential migration has the repeatable
  version, every repeatable one has it.
\<close>

definition registry_ok :: "'db Migrator \<Rightarrow> bool" where
  "registry_ok m \<longleftrightarrow>
     (\<forall>mig \<in> set (migrations m). \<not> IsRepeatable mig) \<and>
     (\<forall>mig \<in> set (repeatable m). IsRepeatable mig)"

text \<open>
  The last element of a list that satisfies a predicate, if there is one. The last
  checksum that the history records for a description is that of the last repeatable
  record with the description, in the order of the history.
\<close>

definition last_of :: "('a \<Rightarrow> bool) \<Rightarrow> 'a list \<Rightarrow> 'a option" where
  "last_of P xs = (case filter P xs of [] \<Rightarrow> None | y # ys \<Rightarrow> Some (last (y # ys)))"

definition last_checksum :: "'db Migration list \<Rightarrow> string \<Rightarrow> string option" where
  "last_checksum installed d =
     map_option Checksum (last_of (\<lambda>r. IsRepeatable r \<and> Description r = d) installed)"

text \<open>
  Further notions for the splitter: the builder's flag agrees with the first line of
  its buffer; a statement ends as its mode requires; the third script of
  \<open>TestStatements\<close>.
\<close>

definition builder_inv :: "StatementBuilder \<Rightarrow> bool" where
  "builder_inv b \<longleftrightarrow>
     (buffer b \<noteq> [] \<longrightarrow> createTrigger b = MatchCreateTrigger (first_line (buffer b)))"

definition well_terminated :: "string \<Rightarrow> bool" where
  "well_terminated s \<longleftrightarrow>
     HasSuffix s '';'' \<and> (MatchCreateTrigger (first_line s) \<longrightarrow> HasSuffix s ''END;'')"

definition script3 :: string where
  "script3 = CHR 0x0A # 
     [CHR 0x09, CHR 0x09, CHR 0x09] @ ''CREATE TRIGGER IF NOT EXISTS stream_version AFTER INSERT ON events'' @ [CHR 0x0A] @
     [CHR 0x09, CHR 0x09, CHR 0x09] @ ''FOR EACH ROW'' @ [CHR 0x0A] @
     [CHR 0x09, CHR 0x09, CHR 0x09] @ ''BEGIN'' @ [CHR 0x0A] @
     [CHR 0x09, CHR 0x09, CHR 0x09] @ ''UPDATE streams SET version = NEW.streamIndex+1 WHERE id=NEW.streamID;'' @ [CHR 0x0A] @
     [CHR 0x09, CHR 0x09, CHR 0x09] @ ''END;'' @ [CHR 0x0A] @
     [CHR 0x09, CHR 0x09, CHR 0x09]"

text \<open>
  What identifies a migration through an install: \<open>install\<close> changes its rank, date,
  execution time and status only.
\<close>

definition ident :: "'db Migration \<Rightarrow> Version \<times> string \<times> Type \<times> string" where
  "ident mig = (Version mig, Description mig, Type mig, Checksum mig)"

text \<open>
  The version that the history records as installed last: that of its last
  sequential record, the sentinel \<open>VersionNone\<close> when it has none.
\<close>

definition last_installed :: "'db Migration list \<Rightarrow> Version" where
  "last_installed installed =
     (case last_of (\<lambda>r. \<not> IsRepeatable r) installed of
        None \<Rightarrow> VersionNone
      | Some r \<Rightarrow> Version r)"

text \<open>
  An adapter whose writes of records fail, and a store with no table; Go migrations
  whose callable succeeds (it adds an object and takes three milliseconds) or fails.
\<close>

definition FailingRecord :: "store Support" where
  "FailingRecord = MemSupport\<lparr>RecordMigration := (\<lambda>db mig. (Some ''disk full'', db))\<rparr>"

definition db0 :: store where
  "db0 = \<lparr>table = None, objects = [], clock = 0\<rparr>"

definition create_object :: "string \<Rightarrow> store CommandFunc" where
  "create_object name db =
     (None, db\<lparr>objects := objects db @ [name], clock := clock db + 3000000\<rparr>)"

definition failing :: "string \<Rightarrow> store CommandFunc" where
  "failing msg db = (Some msg, db)"

definition go_migration :: "Version \<Rightarrow> string \<Rightarrow> store CommandFunc \<Rightarrow> store Migration" where
  "go_migration version description execute =
     \<lparr>Rank = 0, Version = version, Description = description, Type = TypeGo,
      Checksum = [], Date = 0, ExecutionTime = 0, Status = [], Execute = Some execute\<rparr>"

text \<open>
  For the proofs: the calls of a run without the lines logged, and the loop that both
  \<open>install_pending\<close> and \<open>install_repeatable\<close> run on the migrations they do not skip.
\<close>

fun calls :: "'db event list \<Rightarrow> 'db event list" where
  "calls [] = []"
| "calls (e # es) = (case e of Log line \<Rightarrow> calls es | _ \<Rightarrow> e # calls es)"

fun install_all ::
  "'db Migrator \<Rightarrow> 'db Migration list \<Rightarrow> int \<Rightarrow> 'db \<Rightarrow>
   error \<times> int \<times> 'db \<times> 'db event list" where
  "install_all m [] rank db = (None, rank, db, [])"
| "install_all m (mig # rest) rank db =
     (let rank1 = rank + 1;
          (err, db1, tr1) = install m (mig\<lparr>Rank := rank1\<rparr>) db
      in if err \<noteq> None then (err, rank1, db1, tr1)
         else
           (let (err', rank', db', tr) = install_all m rest rank1 db1
            in (err', rank', db', tr1 @ tr)))"

text \<open>
  A migrator over the adapter whose writes fail; a store whose history has one failed
  sequential record.
\<close>

definition FailingMigrator :: "store Migration list \<Rightarrow> store Migration list \<Rightarrow> store Migrator" where
  "FailingMigrator seq rep =
     \<lparr>support = FailingRecord, now = clock, migrations = seq, repeatable = rep\<rparr>"

definition history_row :: "int \<Rightarrow> Version \<Rightarrow> string \<Rightarrow> string \<Rightarrow> Status \<Rightarrow> row" where
  "history_row rank version description checksum status =
     \<lparr>col_rank = rank, col_version = version, col_description = description,
      col_type = TypeGo, col_checksum = checksum, col_date = 0, col_execution_time = 0,
      col_status = status\<rparr>"

definition db_failed :: store where
  "db_failed =
     \<lparr>table = Some [history_row 1 ''1'' ''a'' [] StatusFailed], objects = [], clock = 0\<rparr>"


text \<open>
  A repeatable migration with a checksum, and a store whose history records the
  description \<open>views\<close> twice (checksums \<open>abc\<close>, then \<open>def\<close>) and \<open>procs\<close> once.
\<close>

definition repeatable_migration :: "string \<Rightarrow> string \<Rightarrow> store CommandFunc \<Rightarrow> store Migration" where
  "repeatable_migration description checksum execute =
     \<lparr>Rank = 0, Version = VersionRepeatable, Description = description, Type = TypeSQL,
      Checksum = checksum, Date = 0, ExecutionTime = 0, Status = [], Execute = Some execute\<rparr>"

definition db_repeatable :: store where
  "db_repeatable =
     \<lparr>table = Some [history_row 1 ''R'' ''views'' ''abc'' StatusSuccess,
                     history_row 2 ''R'' ''views'' ''def'' StatusSuccess,
                     history_row 3 ''R'' ''procs'' ''p1'' StatusSuccess],
      objects = [], clock = 0\<rparr>"

text \<open>The record that \<open>Baseline\<close> writes, given the reading of the clock.\<close>

definition baseline_record :: "Version \<Rightarrow> string \<Rightarrow> int \<Rightarrow> 'db Migration" where
  "baseline_record version description date =
     \<lparr>Rank = 1, Version = version, Description = description, Type = TypeBaseline,
      Checksum = [], Date = date, ExecutionTime = 0, Status = StatusSuccess, Execute = None\<rparr>"

section \<open>Properties of the statement splitter\<close>


lemma HasSuffix_iff_suffix: "HasSuffix s suf \<longleftrightarrow> suffix suf s"
proof
  assume "HasSuffix s suf"
  then have "s = take (length s - length suf) s @ suf"
    by (metis HasSuffix_def append_take_drop_id)
  then show "suffix suf s"
    by (metis suffixI)
next
  assume "suffix suf s"
  then obtain p where "s = p @ suf"
    by (auto simp: suffix_def)
  then show "HasSuffix s suf"
    by (simp add: HasSuffix_def)
qed

lemma HasSuffix_append: "HasSuffix l suf \<Longrightarrow> HasSuffix (p @ l) suf"
  by (simp add: HasSuffix_iff_suffix suffix_appendI)

lemma HasSuffix_END: "HasSuffix l ''END;'' \<Longrightarrow> HasSuffix l '';''"
proof -
  assume "HasSuffix l ''END;''"
  then obtain p where "l = p @ ''END;''"
    by (auto simp: HasSuffix_iff_suffix suffix_def)
  then have "l = (p @ ''END'') @ '';''"
    by simp
  then show ?thesis
    unfolding HasSuffix_iff_suffix by (rule suffixI)
qed

lemma HasSuffix_Nil: "HasSuffix [] (c # cs) = False"
  by (simp add: HasSuffix_def)

lemma Append_terminated:
  assumes "IsTerminated (Append b l)"
  shows "HasSuffix (TrimSpace l) '';'' \<and> HasSuffix (Statement (Append b l)) '';''"
proof -
  have t: "HasSuffix (TrimSpace l) '';''"
    using assms
    by (auto simp: Append_def IsTerminated_def Let_def intro: HasSuffix_END split: if_splits)
  have "\<exists>p. Statement (Append b l) = p @ TrimSpace l"
    by (simp add: Append_def Statement_def Let_def)
  with t show ?thesis
    by (auto intro: HasSuffix_append)
qed

lemma Statements_loop_acc:
  "Statements_loop ss b ls =
     (ss @ fst (Statements_loop [] b ls), snd (Statements_loop [] b ls))"
proof (induction ls arbitrary: ss b)
  case Nil
  show ?case by simp
next
  case (Cons l ls)
  show ?case
  proof (cases "IsTerminated (Append b l)")
    case True
    then show ?thesis
      using Cons.IH [of "ss @ [Statement (Append b l)]" NewStatementBuilder]
        Cons.IH [of "[Statement (Append b l)]" NewStatementBuilder]
      by (simp add: Let_def)
  next
    case False
    then show ?thesis
      using Cons.IH [of ss "Append b l"] by (simp add: Let_def)
  qed
qed

lemma Statements_loop_append:
  "Statements_loop ss b (xs @ ys) =
     Statements_loop (fst (Statements_loop ss b xs)) (snd (Statements_loop ss b xs)) ys"
  by (induction xs arbitrary: ss b) (simp_all add: Let_def)

lemma Statements_loop_terminated:
  "(\<forall>s \<in> set ss. HasSuffix s '';'') \<Longrightarrow>
   \<forall>s \<in> set (fst (Statements_loop ss b ls)). HasSuffix s '';''"
proof (induction ls arbitrary: ss b)
  case Nil
  then show ?case by simp
next
  case (Cons l ls)
  show ?case
  proof (cases "IsTerminated (Append b l)")
    case True
    then have eq: "Statements_loop ss b (l # ls) =
        Statements_loop (ss @ [Statement (Append b l)]) NewStatementBuilder ls"
      by (simp add: Let_def)
    from True have "HasSuffix (Statement (Append b l)) '';''"
      by (simp add: Append_terminated)
    then have "\<forall>s \<in> set (ss @ [Statement (Append b l)]). HasSuffix s '';''"
      using Cons.prems by simp
    then show ?thesis
      unfolding eq by (rule Cons.IH)
  next
    case False
    then have eq: "Statements_loop ss b (l # ls) = Statements_loop ss (Append b l) ls"
      by (simp add: Let_def)
    show ?thesis
      unfolding eq using Cons.prems by (rule Cons.IH)
  qed
qed

lemma Statements_loop_unterminated:
  "unterminated b ls \<Longrightarrow> fst (Statements_loop ss b ls) = ss"
  by (induction ls arbitrary: b) (simp_all add: Let_def)



lemma strip_is_drop: "\<exists>n. strip ws s = drop n s"
proof (induction ws s rule: strip.induct)
  case (1 ws s)
  show ?case
  proof (cases "filter (\<lambda>w. w \<noteq> [] \<and> HasPrefix s w) ws")
    case Nil
    then have "strip ws s = drop 0 s"
      by (subst strip.simps) simp
    then show ?thesis by blast
  next
    case (Cons w rest)
    then have eq: "strip ws s = strip ws (drop (length w) s)"
      by (subst strip.simps) simp
    from "1.IH" [OF Cons] obtain n where "strip ws (drop (length w) s) = drop n (drop (length w) s)"
      by blast
    with eq have "strip ws s = drop (n + length w) s"
      by simp
    then show ?thesis by blast
  qed
qed

lemma set_strip: "set (strip ws s) \<subseteq> set s"
proof -
  obtain n where "strip ws s = drop n s"
    using strip_is_drop by blast
  then show ?thesis
    by (simp add: set_drop_subset)
qed

lemma set_TrimSpace: "set (TrimSpace s) \<subseteq> set s"
proof -
  have "set (TrimSpace s) = set (strip (map rev white_space) (rev (strip white_space s)))"
    by (simp add: TrimSpace_def)
  also have "\<dots> \<subseteq> set (rev (strip white_space s))"
    by (rule set_strip)
  also have "\<dots> \<subseteq> set s"
    using set_strip [of white_space s] by simp
  finally show ?thesis .
qed

lemma split_lines_no_newline:
  "CHR 0x0A \<notin> set cur \<Longrightarrow> l \<in> set (split_lines cur s) \<Longrightarrow> CHR 0x0A \<notin> set l"
proof (induction s arbitrary: cur)
  case Nil
  then show ?case by (simp split: if_splits)
next
  case (Cons c cs)
  show ?case
  proof (cases "c = CHR 0x0A")
    case True
    with Cons.prems have "l = cur \<or> l \<in> set (split_lines [] cs)"
      by simp
    then show ?thesis
      using Cons.prems(1) Cons.IH [of "[]"] by auto
  next
    case False
    with Cons.prems have "l \<in> set (split_lines (cur @ [c]) cs)"
      by simp
    moreover have "CHR 0x0A \<notin> set (cur @ [c])"
      using False Cons.prems(1) by simp
    ultimately show ?thesis
      using Cons.IH by blast
  qed
qed

lemma set_dropCR: "set (dropCR l) \<subseteq> set l"
  by (auto simp: dropCR_def dest: in_set_butlastD)

lemma ScanLines_no_newline: "l \<in> set (ScanLines script) \<Longrightarrow> CHR 0x0A \<notin> set l"
proof -
  assume "l \<in> set (ScanLines script)"
  then obtain r where r: "r \<in> set (split_lines [] script)" and l: "l = dropCR r"
    by (auto simp: ScanLines_def dest: set_takeWhileD)
  from r have "CHR 0x0A \<notin> set r"
    using split_lines_no_newline [of "[]" r script] by simp
  with l show ?thesis
    using set_dropCR [of r] by blast
qed

lemma split_lines_append:
  "split_lines cur (a @ CHR 0x0A # b) = split_lines cur (a @ [CHR 0x0A]) @ split_lines [] b"
  by (induction a arbitrary: cur) simp_all

lemma ScanLines_append:
  assumes "script = [] \<or> last script = CHR 0x0A"
  shows "ScanLines (script @ frag) = ScanLines script @ ScanLines frag
         \<or> ScanLines (script @ frag) = ScanLines script"
proof (cases "script = []")
  case True
  then show ?thesis by (simp add: ScanLines_def)
next
  case False
  with assms have "script = butlast script @ [CHR 0x0A]"
    by (metis append_butlast_last_id)
  then obtain a where a: "script = a @ [CHR 0x0A]"
    by blast
  have sp: "split_lines [] (script @ frag) = split_lines [] script @ split_lines [] frag"
    using split_lines_append [of "[]" a frag] by (simp add: a)
  show ?thesis
  proof (cases "\<forall>l \<in> set (split_lines [] script). length l < MaxScanTokenSize")
    case True
    then have t1: "takeWhile (\<lambda>l. length l < MaxScanTokenSize) (split_lines [] script @ split_lines [] frag)
        = split_lines [] script @ takeWhile (\<lambda>l. length l < MaxScanTokenSize) (split_lines [] frag)"
      by (simp add: takeWhile_append2)
    have t2: "takeWhile (\<lambda>l. length l < MaxScanTokenSize) (split_lines [] script)
        = split_lines [] script"
      using True by (simp add: takeWhile_eq_all_conv)
    have "ScanLines (script @ frag) = ScanLines script @ ScanLines frag"
      unfolding ScanLines_def sp t1 t2 by simp
    then show ?thesis ..
  next
    case False
    then obtain l where "l \<in> set (split_lines [] script)" "\<not> length l < MaxScanTokenSize"
      by blast
    then have "takeWhile (\<lambda>l. length l < MaxScanTokenSize) (split_lines [] script @ split_lines [] frag)
        = takeWhile (\<lambda>l. length l < MaxScanTokenSize) (split_lines [] script)"
      by (rule takeWhile_append1)
    then have "ScanLines (script @ frag) = ScanLines script"
      unfolding ScanLines_def sp by simp
    then show ?thesis ..
  qed
qed


lemma pending_unterminated_dropped:
  assumes "script = [] \<or> last script = CHR 0x0A"
    and "unterminated (pending script) (ScanLines frag)"
  shows "Statements (script @ frag) = Statements script"
proof -
  from assms(1) consider
      "ScanLines (script @ frag) = ScanLines script @ ScanLines frag"
    | "ScanLines (script @ frag) = ScanLines script"
    using ScanLines_append by blast
  then show ?thesis
  proof cases
    case 1
    have "Statements (script @ frag) =
        fst (Statements_loop (Statements script) (pending script) (ScanLines frag))"
      by (simp add: Statements_def pending_def 1 Statements_loop_append)
    also have "\<dots> = Statements script"
      using assms(2) by (rule Statements_loop_unterminated)
    finally show ?thesis .
  next
    case 2
    then show ?thesis by (simp add: Statements_def)
  qed
qed

lemma first_line_no_newline: "CHR 0x0A \<notin> set s \<Longrightarrow> first_line s = s"
  by (auto simp: first_line_def takeWhile_eq_all_conv)

lemma first_line_append_newline: "first_line (s @ CHR 0x0A # t) = first_line s"
  by (simp add: first_line_def takeWhile_tail)

lemma builder_inv_New: "builder_inv NewStatementBuilder"
  by (simp add: builder_inv_def NewStatementBuilder_def)

lemma builder_inv_Append:
  assumes "builder_inv b" and "CHR 0x0A \<notin> set l"
  shows "builder_inv (Append b l)"
proof -
  have nl: "CHR 0x0A \<notin> set (TrimSpace l)"
    using assms(2) set_TrimSpace [of l] by blast
  show ?thesis
  proof (cases "buffer b = []")
    case True
    then show ?thesis
      using nl by (simp add: builder_inv_def Append_def Let_def first_line_no_newline)
  next
    case False
    then show ?thesis
      using assms(1)
      by (simp add: builder_inv_def Append_def Let_def first_line_append_newline)
  qed
qed

lemma Append_terminated_trigger:
  assumes "builder_inv b" and "CHR 0x0A \<notin> set l" and "IsTerminated (Append b l)"
    and "MatchCreateTrigger (first_line (Statement (Append b l)))"
  shows "HasSuffix (Statement (Append b l)) ''END;''"
proof -
  have inv: "builder_inv (Append b l)"
    using assms(1,2) by (rule builder_inv_Append)
  have "HasSuffix (TrimSpace l) '';''"
    using assms(3) by (simp add: Append_terminated)
  then have "TrimSpace l \<noteq> []"
    by (auto simp: HasSuffix_def)
  then have "buffer (Append b l) \<noteq> []"
    by (simp add: Append_def Let_def)
  with inv assms(4) have ct: "createTrigger (Append b l)"
    by (simp add: builder_inv_def Statement_def)
  have "\<exists>p. Statement (Append b l) = p @ TrimSpace l"
    by (simp add: Append_def Statement_def Let_def)
  moreover have "HasSuffix (TrimSpace l) ''END;''"
    using ct assms(3) by (auto simp: Append_def IsTerminated_def Let_def split: if_splits)
  ultimately show ?thesis
    by (auto intro: HasSuffix_append)
qed

lemma Statements_loop_well_terminated:
  "builder_inv b \<Longrightarrow> (\<forall>l \<in> set ls. CHR 0x0A \<notin> set l) \<Longrightarrow>
   (\<forall>s \<in> set ss. well_terminated s) \<Longrightarrow>
   \<forall>s \<in> set (fst (Statements_loop ss b ls)). well_terminated s"
proof (induction ls arbitrary: ss b)
  case Nil
  then show ?case by simp
next
  case (Cons l ls)
  have nl: "CHR 0x0A \<notin> set l" and nls: "\<forall>l \<in> set ls. CHR 0x0A \<notin> set l"
    using Cons.prems(2) by simp_all
  show ?case
  proof (cases "IsTerminated (Append b l)")
    case True
    then have eq: "Statements_loop ss b (l # ls) =
        Statements_loop (ss @ [Statement (Append b l)]) NewStatementBuilder ls"
      by (simp add: Let_def)
    have "well_terminated (Statement (Append b l))"
      unfolding well_terminated_def
      using True Cons.prems(1) nl Append_terminated Append_terminated_trigger by blast
    then have "\<forall>s \<in> set (ss @ [Statement (Append b l)]). well_terminated s"
      using Cons.prems(3) by simp
    with builder_inv_New nls show ?thesis
      unfolding eq by (rule Cons.IH)
  next
    case False
    then have eq: "Statements_loop ss b (l # ls) = Statements_loop ss (Append b l) ls"
      by (simp add: Let_def)
    have "builder_inv (Append b l)"
      using Cons.prems(1) nl by (rule builder_inv_Append)
    then show ?thesis
      unfolding eq using nls Cons.prems(3) by (rule Cons.IH)
  qed
qed

lemma Statements_well_terminated: "s \<in> set (Statements script) \<Longrightarrow> well_terminated s"
proof -
  have "\<forall>s \<in> set (fst (Statements_loop [] NewStatementBuilder (ScanLines script))). well_terminated s"
    using builder_inv_New
  proof (rule Statements_loop_well_terminated)
    show "\<forall>l\<in>set (ScanLines script). CHR 0x0A \<notin> set l"
      using ScanLines_no_newline by blast
    show "\<forall>s\<in>set []. well_terminated s"
      by simp
  qed
  then show "s \<in> set (Statements script) \<Longrightarrow> well_terminated s"
    by (simp add: Statements_def)
qed


lemma MatchCreateTrigger_nonempty: "MatchCreateTrigger l \<Longrightarrow> l \<noteq> []"
  by (auto simp: MatchCreateTrigger_def)

lemma Append_blank:
  "TrimSpace l = [] \<Longrightarrow> Append NewStatementBuilder l = NewStatementBuilder"
  by (simp add: Append_def NewStatementBuilder_def MatchCreateTrigger_def HasSuffix_def)

lemma Statements_loop_blanks:
  "\<forall>l \<in> set blanks. TrimSpace l = [] \<Longrightarrow>
   Statements_loop ss NewStatementBuilder blanks = (ss, NewStatementBuilder)"
proof (induction blanks)
  case Nil
  show ?case by simp
next
  case (Cons l blanks)
  then have "Append NewStatementBuilder l = NewStatementBuilder"
    by (simp add: Append_blank)
  moreover have "\<not> IsTerminated NewStatementBuilder"
    by (simp add: IsTerminated_def NewStatementBuilder_def)
  ultimately show ?case
    using Cons by simp
qed

lemma Append_trigger_first:
  "MatchCreateTrigger (TrimSpace l) \<Longrightarrow>
   Append NewStatementBuilder l =
     \<lparr>createTrigger = True, terminated = HasSuffix (TrimSpace l) ''END;'',
      buffer = TrimSpace l\<rparr>"
  by (simp add: Append_def NewStatementBuilder_def Let_def)

lemma Append_trigger_next:
  "createTrigger b \<Longrightarrow> buffer b \<noteq> [] \<Longrightarrow>
   Append b l =
     b\<lparr>buffer := buffer b @ CHR 0x0A # TrimSpace l,
       terminated := HasSuffix (TrimSpace l) ''END;''\<rparr>"
  by (simp add: Append_def Let_def)

lemma Join_Cons: "Join (x # xs) sep = x @ concat (map (\<lambda>l. sep @ l) xs)"
  by (induction xs arbitrary: x) simp_all

lemma trigger_body:
  "createTrigger b \<Longrightarrow> buffer b \<noteq> [] \<Longrightarrow> ls \<noteq> [] \<Longrightarrow>
   \<forall>l \<in> set (butlast ls). \<not> HasSuffix (TrimSpace l) ''END;'' \<Longrightarrow>
   HasSuffix (TrimSpace (last ls)) ''END;'' \<Longrightarrow>
   Statements_loop ss b (ls @ after) =
     Statements_loop (ss @ [buffer b @ concat (map (\<lambda>l. CHR 0x0A # TrimSpace l) ls)])
       NewStatementBuilder after"
proof (induction ls arbitrary: b)
  case Nil
  then show ?case by simp
next
  case (Cons l ls)
  let ?b = "Append b l"
  have app: "?b = b\<lparr>buffer := buffer b @ CHR 0x0A # TrimSpace l,
       terminated := HasSuffix (TrimSpace l) ''END;''\<rparr>"
    using Cons.prems(1,2) by (rule Append_trigger_next)
  show ?case
  proof (cases "ls = []")
    case True
    with Cons.prems(5) have "IsTerminated ?b"
      by (simp add: app IsTerminated_def)
    then show ?thesis
      using True by (simp add: Let_def Statement_def app)
  next
    case False
    with Cons.prems(4) have "\<not> IsTerminated ?b"
      by (simp add: app IsTerminated_def)
    then have eq: "Statements_loop ss b ((l # ls) @ after) = Statements_loop ss ?b (ls @ after)"
      by (simp add: Let_def)
    have "Statements_loop ss ?b (ls @ after) =
        Statements_loop (ss @ [buffer ?b @ concat (map (\<lambda>l. CHR 0x0A # TrimSpace l) ls)])
          NewStatementBuilder after"
    proof (rule Cons.IH)
      show "createTrigger ?b" using Cons.prems(1) by (simp add: app)
      show "buffer ?b \<noteq> []" by (simp add: app)
      show "ls \<noteq> []" by fact
      show "\<forall>l \<in> set (butlast ls). \<not> HasSuffix (TrimSpace l) ''END;''"
        using Cons.prems(4) False by simp
      show "HasSuffix (TrimSpace (last ls)) ''END;''"
        using Cons.prems(5) False by simp
    qed
    then show ?thesis
      unfolding eq by (simp add: app)
  qed
qed

lemma Statements_script3:
  "Statements script3 =
     [''CREATE TRIGGER IF NOT EXISTS stream_version AFTER INSERT ON events'' @ [CHR 0x0A] @
      ''FOR EACH ROW'' @ [CHR 0x0A] @ ''BEGIN'' @ [CHR 0x0A] @
      ''UPDATE streams SET version = NEW.streamIndex+1 WHERE id=NEW.streamID;'' @ [CHR 0x0A] @
      ''END;'']"
  by (simp add: script3_def Statements_def ScanLines_def dropCR_def MaxScanTokenSize_def
      NewStatementBuilder_def Append_def IsTerminated_def Statement_def TrimSpace_def
      white_space_def HasPrefix_def HasSuffix_def MatchCreateTrigger_def)

text \<open>
  Claim C8. For every input script, the splitter never emits an unterminated trailing
  fragment. Every statement that \<open>Statements\<close> returns ends with \<open>;\<close>, and with \<open>END;\<close>
  when its first line matches the trigger pattern. Text that follows the input and
  never terminates the statement in progress (no line ending with \<open>;\<close>, or with \<open>END;\<close>
  in trigger mode) leaves the returned sequence as it is: the fragment is dropped,
  there is no flush at the end of the input.
\<close>

theorem Statements_drops_unterminated_fragment:
  "(\<forall>s \<in> set (Statements script). well_terminated s) \<and>
   ((script = [] \<or> last script = CHR 0x0A) \<and> unterminated (pending script) (ScanLines frag)
      \<longrightarrow> Statements (script @ frag) = Statements script)"
  using Statements_well_terminated pending_unterminated_dropped by blast

theorem Statements_drops_unterminated_fragment_witness:
  "last (''SELECT 1;'' @ [CHR 0x0A]) = CHR 0x0A \<and>
   unterminated (pending (''SELECT 1;'' @ [CHR 0x0A]))
     (ScanLines (''CREATE TRIGGER t'' @ [CHR 0x0A] @ ''UPDATE x;'' @ [CHR 0x0A] @ ''EN'')) \<and>
   Statements ((''SELECT 1;'' @ [CHR 0x0A])
      @ (''CREATE TRIGGER t'' @ [CHR 0x0A] @ ''UPDATE x;'' @ [CHR 0x0A] @ ''EN''))
     = [''SELECT 1;''] \<and>
   well_terminated ''SELECT 1;''"
proof -
  let ?script = "''SELECT 1;'' @ [CHR 0x0A]"
  let ?frag = "''CREATE TRIGGER t'' @ [CHR 0x0A] @ ''UPDATE x;'' @ [CHR 0x0A] @ ''EN''"
  have st: "Statements ?script = [''SELECT 1;'']"
    by (simp add: Statements_def ScanLines_def dropCR_def MaxScanTokenSize_def
        NewStatementBuilder_def Append_def IsTerminated_def Statement_def TrimSpace_def
        white_space_def HasPrefix_def HasSuffix_def MatchCreateTrigger_def)
  have h1: "last ?script = CHR 0x0A"
    by simp
  have h2: "unterminated (pending ?script) (ScanLines ?frag)"
    by (simp add: pending_def ScanLines_def dropCR_def MaxScanTokenSize_def
        NewStatementBuilder_def Append_def IsTerminated_def Statement_def TrimSpace_def
        white_space_def HasPrefix_def HasSuffix_def MatchCreateTrigger_def)
  from Statements_drops_unterminated_fragment [of ?script ?frag] h1 h2
  have "Statements (?script @ ?frag) = Statements ?script"
    and "\<forall>s \<in> set (Statements ?script). well_terminated s"
    by blast+
  with st h1 h2 show ?thesis
    by simp
qed

text \<open>
  Claim C9. When the first non-empty line of a statement matches the
  \<open>CREATE [TEMP|TEMPORARY] TRIGGER\<close> pattern, the splitter accumulates lines until a
  line ends with \<open>END;\<close> (a line that ends with \<open>;\<close> only does not terminate it) and
  emits exactly one statement: the trimmed lines from the \<open>CREATE TRIGGER\<close> line
  through the \<open>END;\<close> line, joined with newlines. Here the loop is at the start of a
  statement with \<open>ss\<close> found so far, \<open>blanks\<close> are lines that are empty once trimmed,
  \<open>ls\<close> are the lines of the trigger and \<open>after\<close> is the rest of the input.
\<close>

theorem trigger_statement:
  assumes "\<forall>l \<in> set blanks. TrimSpace l = []"
    and "ls \<noteq> []"
    and "MatchCreateTrigger (TrimSpace (hd ls))"
    and "\<forall>l \<in> set (butlast ls). \<not> HasSuffix (TrimSpace l) ''END;''"
    and "HasSuffix (TrimSpace (last ls)) ''END;''"
  shows "Statements_loop ss NewStatementBuilder (blanks @ ls @ after) =
     Statements_loop (ss @ [Join (map TrimSpace ls) [CHR 0x0A]]) NewStatementBuilder after"
proof -
  obtain l0 rest where ls: "ls = l0 # rest"
    using assms(2) by (cases ls) auto
  let ?b = "Append NewStatementBuilder l0"
  have m: "MatchCreateTrigger (TrimSpace l0)"
    using assms(3) by (simp add: ls)
  have app: "?b = \<lparr>createTrigger = True, terminated = HasSuffix (TrimSpace l0) ''END;'',
      buffer = TrimSpace l0\<rparr>"
    using m by (rule Append_trigger_first)
  have start: "Statements_loop ss NewStatementBuilder (blanks @ ls @ after) =
      Statements_loop ss NewStatementBuilder (ls @ after)"
    using assms(1) by (simp add: Statements_loop_append Statements_loop_blanks)
  show ?thesis
  proof (cases "rest = []")
    case True
    with assms(5) have "IsTerminated ?b"
      by (simp add: ls app IsTerminated_def)
    then show ?thesis
      unfolding start using True by (simp add: ls Let_def Statement_def app)
  next
    case False
    with assms(4) have "\<not> IsTerminated ?b"
      by (simp add: ls app IsTerminated_def)
    then have eq: "Statements_loop ss NewStatementBuilder (ls @ after) =
        Statements_loop ss ?b (rest @ after)"
      by (simp add: ls Let_def)
    have "Statements_loop ss ?b (rest @ after) =
        Statements_loop (ss @ [buffer ?b @ concat (map (\<lambda>l. CHR 0x0A # TrimSpace l) rest)])
          NewStatementBuilder after"
    proof (rule trigger_body)
      show "createTrigger ?b" by (simp add: app)
      show "buffer ?b \<noteq> []" using m by (simp add: app MatchCreateTrigger_nonempty)
      show "rest \<noteq> []" by fact
      show "\<forall>l \<in> set (butlast rest). \<not> HasSuffix (TrimSpace l) ''END;''"
        using assms(4) False by (simp add: ls)
      show "HasSuffix (TrimSpace (last rest)) ''END;''"
        using assms(5) False by (simp add: ls)
    qed
    then show ?thesis
      unfolding start eq by (simp add: app ls Join_Cons comp_def)
  qed
qed

theorem trigger_statement_witness:
  "TrimSpace [] = [] \<and> TrimSpace '' '' = [] \<and>
   MatchCreateTrigger (TrimSpace ''  CREATE TRIGGER t AFTER INSERT ON e'') \<and>
   \<not> HasSuffix (TrimSpace ''  CREATE TRIGGER t AFTER INSERT ON e'') ''END;'' \<and>
   \<not> HasSuffix (TrimSpace ''BEGIN'') ''END;'' \<and>
   \<not> HasSuffix (TrimSpace '' UPDATE s SET v = 1; '') ''END;'' \<and>
   HasSuffix (TrimSpace ''END;'') ''END;'' \<and>
   Statements_loop [] NewStatementBuilder
     ([[], '' ''] @ [''  CREATE TRIGGER t AFTER INSERT ON e'', ''BEGIN'',
        '' UPDATE s SET v = 1; '', ''END;''] @ [''SELECT 1;''])
     = ([''CREATE TRIGGER t AFTER INSERT ON e'' @ [CHR 0x0A] @ ''BEGIN'' @ [CHR 0x0A]
          @ ''UPDATE s SET v = 1;'' @ [CHR 0x0A] @ ''END;'', ''SELECT 1;''],
        NewStatementBuilder)"
proof -
  let ?ls = "[''  CREATE TRIGGER t AFTER INSERT ON e'', ''BEGIN'',
      '' UPDATE s SET v = 1; '', ''END;'']"
  have t0: "TrimSpace [] = []" and t1: "TrimSpace '' '' = []"
    and t2: "TrimSpace ''  CREATE TRIGGER t AFTER INSERT ON e'' = ''CREATE TRIGGER t AFTER INSERT ON e''"
    and t3: "TrimSpace ''BEGIN'' = ''BEGIN''"
    and t4: "TrimSpace '' UPDATE s SET v = 1; '' = ''UPDATE s SET v = 1;''"
    and t5: "TrimSpace ''END;'' = ''END;''"
    and t6: "TrimSpace ''SELECT 1;'' = ''SELECT 1;''"
    by (simp_all add: TrimSpace_def white_space_def HasPrefix_def)
  have h1: "\<forall>l \<in> set [[], '' '']. TrimSpace l = []"
    by (simp add: t0 t1)
  have h2: "?ls \<noteq> []"
    by simp
  have h3: "MatchCreateTrigger (TrimSpace (hd ?ls))"
    by (simp add: t2 MatchCreateTrigger_def HasPrefix_def)
  have h4: "\<forall>l \<in> set (butlast ?ls). \<not> HasSuffix (TrimSpace l) ''END;''"
    by (simp add: t2 t3 t4 HasSuffix_def)
  have h5: "HasSuffix (TrimSpace (last ?ls)) ''END;''"
    by (simp add: t5 HasSuffix_def)
  have rest: "Statements_loop ss NewStatementBuilder [''SELECT 1;'']
      = (ss @ [''SELECT 1;''], NewStatementBuilder)" for ss
    by (simp add: Append_def NewStatementBuilder_def IsTerminated_def Statement_def t6
        MatchCreateTrigger_def HasPrefix_def HasSuffix_def)
  have j: "Join (map TrimSpace ?ls) [CHR 0x0A] =
      ''CREATE TRIGGER t AFTER INSERT ON e'' @ [CHR 0x0A] @ ''BEGIN'' @ [CHR 0x0A]
          @ ''UPDATE s SET v = 1;'' @ [CHR 0x0A] @ ''END;''"
    by (simp add: t2 t3 t4 t5)
  have "Statements_loop [] NewStatementBuilder ([[], '' ''] @ ?ls @ [''SELECT 1;''])
      = Statements_loop ([] @ [Join (map TrimSpace ?ls) [CHR 0x0A]]) NewStatementBuilder
          [''SELECT 1;'']"
    using h1 h2 h3 h4 h5 by (rule trigger_statement)
  then have "Statements_loop [] NewStatementBuilder ([[], '' ''] @ ?ls @ [''SELECT 1;''])
      = ([''CREATE TRIGGER t AFTER INSERT ON e'' @ [CHR 0x0A] @ ''BEGIN'' @ [CHR 0x0A]
          @ ''UPDATE s SET v = 1;'' @ [CHR 0x0A] @ ''END;'', ''SELECT 1;''],
        NewStatementBuilder)"
    unfolding rest j by (simp only: append_Nil append_Cons)
  with h1 h3 h4 h5 show ?thesis
    by simp
qed

section \<open>Properties of the migrator\<close>

lemma executed_append: "executed (xs @ ys) = executed xs @ executed ys"
  by (induction xs) (simp_all split: event.splits)

lemma recorded_append: "recorded (xs @ ys) = recorded xs @ recorded ys"
  by (induction xs) (simp_all split: event.splits)

lemma written_append: "written (xs @ ys) = written xs @ written ys"
  by (induction xs) (simp_all split: event.splits option.splits)

lemma adapter_errors_append: "adapter_errors (xs @ ys) = adapter_errors xs @ adapter_errors ys"
  by (induction xs) (simp_all split: event.splits option.splits)

lemma install_None:
  "Execute mig = None \<Longrightarrow>
   install m mig db = (Some (''cannot execute migration: '' @ Migration_String mig), db, [])"
  by (simp add: install_def)

lemma Migration_String_update:
  "Migration_String (mig\<lparr>Date := d\<rparr>) = Migration_String mig"
  "Migration_String (mig\<lparr>ExecutionTime := t\<rparr>) = Migration_String mig"
  "Migration_String (mig\<lparr>Status := s\<rparr>) = Migration_String mig"
  "Migration_String (mig\<lparr>Rank := r\<rparr>) = Migration_String mig"
  by (simp_all add: Migration_String_def)

text \<open>The record that \<open>install\<close> passes to the adapter.\<close>

lemma install_Some:
  assumes "Execute mig = Some f" and "f db = (e, db1)"
    and "g = mig\<lparr>Date := now m db, ExecutionTime := (now m db1 - now m db) sdiv 1000000,
                  Status := (if e = None then StatusSuccess else StatusFailed)\<rparr>"
    and "RecordMigration (support m) db1 g = (r, db2)"
  shows "install m mig db =
     ((case r of Some x \<Rightarrow> Some (''record migration: '' @ Migration_String mig @ '': '' @ x)
         | None \<Rightarrow> e),
      db2,
      [Log (''installing: '' @ Migration_String mig), CallExecute (mig\<lparr>Date := now m db\<rparr>) e,
       CallRecord g r])"
  using assms by (simp add: install_def Let_def Migration_String_update split: option.splits)


lemma install_cases:
  assumes "install m mig db = (err, db', tr)"
  obtains (nil) "Execute mig = None" and "err \<noteq> None" and "db' = db" and "tr = []"
  | (run) f e db1 g r where "Execute mig = Some f" and "f db = (e, db1)"
      and "g = mig\<lparr>Date := now m db, ExecutionTime := (now m db1 - now m db) sdiv 1000000,
                    Status := (if e = None then StatusSuccess else StatusFailed)\<rparr>"
      and "RecordMigration (support m) db1 g = (r, db')"
      and "tr = [Log (''installing: '' @ Migration_String mig),
                 CallExecute (mig\<lparr>Date := now m db\<rparr>) e, CallRecord g r]"
      and "err = (case r of
                    Some x \<Rightarrow> Some (''record migration: '' @ Migration_String mig @ '': '' @ x)
                  | None \<Rightarrow> e)"
proof (cases "Execute mig")
  case None
  from assms install_None [OF None, of m db]
  have "err = Some (''cannot execute migration: '' @ Migration_String mig)"
    and "db' = db" and "tr = []"
    by simp_all
  with None show ?thesis
    by (intro nil) simp_all
next
  case (Some f)
  obtain e db1 where f: "f db = (e, db1)"
    by (cases "f db")
  define g where "g = mig\<lparr>Date := now m db,
      ExecutionTime := (now m db1 - now m db) sdiv 1000000,
      Status := (if e = None then StatusSuccess else StatusFailed)\<rparr>"
  obtain r db2 where r: "RecordMigration (support m) db1 g = (r, db2)"
    by (cases "RecordMigration (support m) db1 g")
  from install_Some [OF Some f g_def r] assms
  have e: "err = (case r of
                    Some x \<Rightarrow> Some (''record migration: '' @ Migration_String mig @ '': '' @ x)
                  | None \<Rightarrow> e)" and d: "db' = db2"
    and t: "tr = [Log (''installing: '' @ Migration_String mig),
                 CallExecute (mig\<lparr>Date := now m db\<rparr>) e, CallRecord g r]"
    by simp_all
  show ?thesis
  proof (rule run)
    show "Execute mig = Some f" by fact
    show "f db = (e, db1)" by fact
    show "g = mig\<lparr>Date := now m db, ExecutionTime := (now m db1 - now m db) sdiv 1000000,
                    Status := (if e = None then StatusSuccess else StatusFailed)\<rparr>"
      by (fact g_def)
    show "RecordMigration (support m) db1 g = (r, db')"
      using r d by simp
    show "tr = [Log (''installing: '' @ Migration_String mig),
                 CallExecute (mig\<lparr>Date := now m db\<rparr>) e, CallRecord g r]"
      by fact
    show "err = (case r of
                    Some x \<Rightarrow> Some (''record migration: '' @ Migration_String mig @ '': '' @ x)
                  | None \<Rightarrow> e)"
      by fact
  qed
qed

lemma calls_append: "calls (xs @ ys) = calls xs @ calls ys"
  by (induction xs) (simp_all split: event.splits)

lemma executed_calls: "executed (calls tr) = executed tr"
  by (induction tr) (simp_all split: event.splits)

lemma recorded_calls: "recorded (calls tr) = recorded tr"
  by (induction tr) (simp_all split: event.splits)

lemma written_calls: "written (calls tr) = written tr"
  by (induction tr) (simp_all split: event.splits option.splits)

lemma adapter_errors_calls: "adapter_errors (calls tr) = adapter_errors tr"
  by (induction tr) (simp_all split: event.splits option.splits)

lemma install_pending_install_all:
  "install_pending m lastInstalled migs rank db = (err, rank', db', tr) \<Longrightarrow>
   \<exists>tr'. install_all m (filter (\<lambda>g. \<not> LEQ (Version g) lastInstalled) migs) rank db
            = (err, rank', db', tr') \<and> calls tr' = calls tr"
proof (induction migs arbitrary: rank db err rank' db' tr)
  case Nil
  then show ?case by auto
next
  case (Cons mig rest)
  show ?case
  proof (cases "LEQ (Version mig) lastInstalled")
    case True
    obtain e r d t where rest: "install_pending m lastInstalled rest rank db = (e, r, d, t)"
      by (cases "install_pending m lastInstalled rest rank db") auto
    with True Cons.prems have eqs: "err = e" "rank' = r" "db' = d"
      and tr: "tr = Log (''skipping installed migration: '' @ Version mig @ '' - ''
          @ Description mig) # t"
      by simp_all
    from Cons.IH [OF rest] obtain t' where
      "install_all m (filter (\<lambda>g. \<not> LEQ (Version g) lastInstalled) rest) rank db
         = (e, r, d, t')" and "calls t' = calls t"
      by blast
    with True eqs tr show ?thesis
      by simp
  next
    case False
    obtain e1 db1 tr1 where inst: "install m (mig\<lparr>Rank := rank + 1\<rparr>) db = (e1, db1, tr1)"
      by (cases "install m (mig\<lparr>Rank := rank + 1\<rparr>) db") auto
    show ?thesis
    proof (cases "e1 = None")
      case e1: False
      with False inst Cons.prems show ?thesis
        by auto
    next
      case e1: True
      obtain e r d t where rest:
        "install_pending m lastInstalled rest (rank + 1) db1 = (e, r, d, t)"
        by (cases "install_pending m lastInstalled rest (rank + 1) db1") auto
      with False inst e1 Cons.prems have eqs: "err = e" "rank' = r" "db' = d" "tr = tr1 @ t"
        by simp_all
      from Cons.IH [OF rest] obtain t' where
        "install_all m (filter (\<lambda>g. \<not> LEQ (Version g) lastInstalled) rest) (rank + 1) db1
           = (e, r, d, t')" and "calls t' = calls t"
        by blast
      with False inst e1 eqs show ?thesis
        by (simp add: calls_append)
    qed
  qed
qed

lemma install_repeatable_install_all:
  "install_repeatable m checksums migs rank db = (err, rank', db', tr) \<Longrightarrow>
   \<exists>tr'. install_all m (filter (\<lambda>g. checksums (Description g) \<noteq> Some (Checksum g)) migs)
              rank db
            = (err, rank', db', tr') \<and> calls tr' = calls tr"
proof (induction migs arbitrary: rank db err rank' db' tr)
  case Nil
  then show ?case by auto
next
  case (Cons mig rest)
  show ?case
  proof (cases "checksums (Description mig) = Some (Checksum mig)")
    case True
    obtain e r d t where rest: "install_repeatable m checksums rest rank db = (e, r, d, t)"
      by (cases "install_repeatable m checksums rest rank db") auto
    with True Cons.prems have eqs: "err = e" "rank' = r" "db' = d"
      and tr: "tr = Log (''skipping repeatable migration: '' @ Description mig) # t"
      by simp_all
    from Cons.IH [OF rest] obtain t' where
      "install_all m (filter (\<lambda>g. checksums (Description g) \<noteq> Some (Checksum g)) rest) rank db
         = (e, r, d, t')" and "calls t' = calls t"
      by blast
    with True eqs tr show ?thesis
      by simp
  next
    case False
    obtain e1 db1 tr1 where inst: "install m (mig\<lparr>Rank := rank + 1\<rparr>) db = (e1, db1, tr1)"
      by (cases "install m (mig\<lparr>Rank := rank + 1\<rparr>) db") auto
    show ?thesis
    proof (cases "e1 = None")
      case e1: False
      with False inst Cons.prems show ?thesis
        by auto
    next
      case e1: True
      obtain e r d t where rest:
        "install_repeatable m checksums rest (rank + 1) db1 = (e, r, d, t)"
        by (cases "install_repeatable m checksums rest (rank + 1) db1") auto
      with False inst e1 Cons.prems have eqs: "err = e" "rank' = r" "db' = d" "tr = tr1 @ t"
        by simp_all
      from Cons.IH [OF rest] obtain t' where
        "install_all m (filter (\<lambda>g. checksums (Description g) \<noteq> Some (Checksum g)) rest)
           (rank + 1) db1 = (e, r, d, t')" and "calls t' = calls t"
        by blast
      with False inst e1 eqs show ?thesis
        by (simp add: calls_append)
    qed
  qed
qed


lemma ident_Rank [simp]: "ident (mig\<lparr>Rank := r\<rparr>) = ident mig"
  by (simp add: ident_def)

text \<open>One call of \<open>install\<close>, seen through the projections of its events.\<close>

lemma install_step:
  assumes "install m mig db = (err, db', tr)"
  obtains (nil) "Execute mig = None" and "err \<noteq> None" and "db' = db" and "tr = []"
  | (run) x y r where "executed tr = [x]" and "recorded tr = [y]"
      and "ident x = ident mig" and "Rank x = Rank mig"
      and "ident y = ident mig" and "Rank y = Rank mig"
      and "written tr = (if r = None then [y] else [])"
      and "adapter_errors tr = (case r of None \<Rightarrow> [] | Some e \<Rightarrow> [e])"
      and "err = None \<longleftrightarrow> r = None \<and> Status y = StatusSuccess"
      and "Execute mig \<noteq> None"
using assms
proof (cases rule: install_cases)
  case nil
  then show ?thesis by (rule that(1))
next
  case (run f e db1 g r)
  have ss: "StatusSuccess \<noteq> StatusFailed"
    by (simp add: StatusSuccess_def StatusFailed_def)
  show ?thesis
  proof (rule that(2))
    show "executed tr = [mig\<lparr>Date := now m db\<rparr>]"
      by (simp add: run(5))
    show "recorded tr = [g]"
      by (simp add: run(5))
    show "ident (mig\<lparr>Date := now m db\<rparr>) = ident mig"
      by (simp add: ident_def)
    show "Rank (mig\<lparr>Date := now m db\<rparr>) = Rank mig"
      by simp
    show "ident g = ident mig"
      by (simp add: ident_def run(3))
    show "Rank g = Rank mig"
      by (simp add: run(3))
    show "written tr = (if r = None then [g] else [])"
      by (cases r) (simp_all add: run(5))
    show "adapter_errors tr = (case r of None \<Rightarrow> [] | Some e \<Rightarrow> [e])"
      by (cases r) (simp_all add: run(5))
    show "err = None \<longleftrightarrow> r = None \<and> Status g = StatusSuccess"
      using ss by (cases r) (auto simp: run(3,6))
    show "Execute mig \<noteq> None"
      by (simp add: run(1))
  qed
qed

lemma install_all_Cons:
  assumes "install_all m (mig # rest) rank db = (err, rank', db', tr)"
  obtains (stop) db1 where "install m (mig\<lparr>Rank := rank + 1\<rparr>) db = (err, db1, tr)"
      and "err \<noteq> None" and "db' = db1"
  | (continue) db1 tr1 t where "install m (mig\<lparr>Rank := rank + 1\<rparr>) db = (None, db1, tr1)"
      and "install_all m rest (rank + 1) db1 = (err, rank', db', t)" and "tr = tr1 @ t"
proof -
  obtain e1 db1 tr1 where inst: "install m (mig\<lparr>Rank := rank + 1\<rparr>) db = (e1, db1, tr1)"
    by (cases "install m (mig\<lparr>Rank := rank + 1\<rparr>) db") auto
  show ?thesis
  proof (cases "e1 = None")
    case False
    with inst assms have "err = e1" "db' = db1" "tr = tr1"
      by simp_all
    with inst False show ?thesis
      by (intro stop) simp_all
  next
    case True
    obtain e r d t where rest: "install_all m rest (rank + 1) db1 = (e, r, d, t)"
      by (cases "install_all m rest (rank + 1) db1") auto
    with inst True assms have "err = e" "rank' = r" "db' = d" "tr = tr1 @ t"
      by simp_all
    with inst True rest show ?thesis
      by (intro continue) simp_all
  qed
qed

lemma install_all_executed:
  "install_all m migs rank db = (err, rank', db', tr) \<Longrightarrow>
   map ident (executed tr) = map ident (take (length (executed tr)) migs) \<and>
   (err = None \<longrightarrow> length (executed tr) = length migs \<and> rank' = rank + int (length migs))"
proof (induction migs arbitrary: rank db err rank' db' tr)
  case Nil
  then show ?case by auto
next
  case (Cons mig rest)
  from Cons.prems show ?case
  proof (cases rule: install_all_Cons)
    case (stop db1)
    from stop(1) show ?thesis
    proof (cases rule: install_step)
      case nil
      with stop(2) show ?thesis by simp
    next
      case (run x y r)
      from run(1,3) stop(2) show ?thesis by auto
    qed
  next
    case (continue db1 tr1 t)
    from Cons.IH [OF continue(2)]
    have ih: "map ident (executed t) = map ident (take (length (executed t)) rest)"
      and ih2: "err = None \<longrightarrow> length (executed t) = length rest \<and>
         rank' = rank + 1 + int (length rest)"
      by simp_all
    from continue(1) show ?thesis
    proof (cases rule: install_step)
      case nil
      then show ?thesis by simp
    next
      case (run x y r)
      with ih ih2 continue(3) show ?thesis
        by (simp add: executed_append)
    qed
  qed
qed

lemma install_all_ranks:
  "install_all m migs rank db = (err, rank', db', tr) \<Longrightarrow>
   map Rank (executed tr) = [rank + 1..rank + int (length (executed tr))] \<and>
   map Rank (recorded tr) = map Rank (executed tr) \<and>
   map ident (recorded tr) = map ident (executed tr)"
proof (induction migs arbitrary: rank db err rank' db' tr)
  case Nil
  then show ?case by auto
next
  case (Cons mig rest)
  from Cons.prems show ?case
  proof (cases rule: install_all_Cons)
    case (stop db1)
    from stop(1) show ?thesis
    proof (cases rule: install_step)
      case nil
      then show ?thesis by simp
    next
      case (run x y r)
      then show ?thesis by simp
    qed
  next
    case (continue db1 tr1 t)
    from Cons.IH [OF continue(2)]
    have ih: "map Rank (executed t) = [rank + 1 + 1..rank + 1 + int (length (executed t))]"
      and ih2: "map Rank (recorded t) = map Rank (executed t)"
      and ih3: "map ident (recorded t) = map ident (executed t)"
      by simp_all
    from continue(1) show ?thesis
    proof (cases rule: install_step)
      case nil
      then show ?thesis by simp
    next
      case (run x y r)
      have "[rank + 1..rank + int (length (executed tr1 @ executed t))]
          = (rank + 1) # [rank + 1 + 1..rank + 1 + int (length (executed t))]"
        using run(1) by (simp add: upto_rec1 algebra_simps)
      with run ih ih2 ih3 continue(3) show ?thesis
        by (simp add: executed_append recorded_append)
    qed
  qed
qed

lemma install_all_written:
  "install_all m migs rank db = (err, rank', db', tr) \<Longrightarrow>
   prefix (written tr) (recorded tr) \<and>
   (err = None \<longrightarrow> written tr = recorded tr \<and> (\<forall>g \<in> set (recorded tr). Status g = StatusSuccess)) \<and>
   (adapter_errors tr \<noteq> [] \<longrightarrow> err \<noteq> None)"
proof (induction migs arbitrary: rank db err rank' db' tr)
  case Nil
  then show ?case by auto
next
  case (Cons mig rest)
  from Cons.prems show ?case
  proof (cases rule: install_all_Cons)
    case (stop db1)
    from stop(1) show ?thesis
    proof (cases rule: install_step)
      case nil
      then show ?thesis by simp
    next
      case (run x y r)
      with stop(2) show ?thesis by simp
    qed
  next
    case (continue db1 tr1 t)
    from Cons.IH [OF continue(2)]
    have ih: "prefix (written t) (recorded t)"
      and ih2: "err = None \<longrightarrow> written t = recorded t \<and> (\<forall>g \<in> set (recorded t). Status g = StatusSuccess)"
      and ih3: "adapter_errors t \<noteq> [] \<longrightarrow> err \<noteq> None"
      by simp_all
    from continue(1) show ?thesis
    proof (cases rule: install_step)
      case nil
      then show ?thesis by simp
    next
      case (run x y r)
      from run(9) have "r = None" and "Status y = StatusSuccess"
        by simp_all
      with run ih ih2 ih3 continue(3) show ?thesis
        by (simp add: written_append recorded_append adapter_errors_append)
    qed
  qed
qed


lemma install_all_append:
  "install_all m (xs @ ys) rank db =
     (case install_all m xs rank db of
        (e, r, d, t) \<Rightarrow>
          if e \<noteq> None then (e, r, d, t)
          else (case install_all m ys r d of (e', r', d', t') \<Rightarrow> (e', r', d', t @ t')))"
proof (induction xs arbitrary: rank db)
  case Nil
  show ?case by (simp split: prod.splits)
next
  case (Cons x xs)
  obtain e1 db1 tr1 where inst: "install m (x\<lparr>Rank := rank + 1\<rparr>) db = (e1, db1, tr1)"
    by (cases "install m (x\<lparr>Rank := rank + 1\<rparr>) db") auto
  show ?case
  proof (cases "e1 = None")
    case False
    with inst show ?thesis by auto
  next
    case True
    obtain e r d t where xs: "install_all m xs (rank + 1) db1 = (e, r, d, t)"
      by (cases "install_all m xs (rank + 1) db1") auto
    obtain e' r' d' t' where ys: "install_all m ys r d = (e', r', d', t')"
      by (cases "install_all m ys r d") auto
    from True inst xs ys Cons.IH [of "rank + 1" db1] show ?thesis
      by (cases "e = None") simp_all
  qed
qed

lemma last_of_Nil [simp]: "last_of P [] = None"
  by (simp add: last_of_def)

lemma last_of_Cons:
  "last_of P (x # xs) =
     (case last_of P xs of None \<Rightarrow> (if P x then Some x else None) | Some y \<Rightarrow> Some y)"
  by (simp add: last_of_def split: list.splits)

lemma last_of_append:
  "last_of P (xs @ ys) = (case last_of P ys of None \<Rightarrow> last_of P xs | Some y \<Rightarrow> Some y)"
  by (induction xs) (auto simp: last_of_Cons split: option.splits)

lemma last_of_Some: "last_of P xs = Some y \<Longrightarrow> y \<in> set xs \<and> P y"
proof -
  assume "last_of P xs = Some y"
  then have "filter P xs \<noteq> []" and "y = last (filter P xs)"
    by (auto simp: last_of_def split: list.splits)
  then have "y \<in> set (filter P xs)"
    using last_in_set by blast
  then show ?thesis by simp
qed

lemma last_of_None: "last_of P xs = None \<longleftrightarrow> (\<forall>x \<in> set xs. \<not> P x)"
proof -
  have "last_of P xs = None \<longleftrightarrow> filter P xs = []"
    by (simp add: last_of_def split: list.splits)
  then show ?thesis
    by (simp add: filter_empty_conv)
qed

lemma scan_append:
  "scan (xs @ ys) st = (case scan xs st of Inl e \<Rightarrow> Inl e | Inr st' \<Rightarrow> scan ys st')"
  by (induction xs st rule: scan.induct) simp_all

lemma scan_failed:
  "\<exists>r \<in> set installed. \<not> IsRepeatable r \<and> Status r = StatusFailed \<Longrightarrow>
   \<exists>e. scan installed st = Inl e"
  by (induction installed st rule: scan.induct) auto

lemma scan_ok:
  "\<forall>r \<in> set installed. IsRepeatable r \<or> Status r = StatusSuccess \<Longrightarrow>
   \<exists>st'. scan installed st = Inr st'"
proof (induction installed st rule: scan.induct)
  case (1 st)
  show ?case by (cases st) simp
next
  case (2 mig rest rank lastInstalled checksums)
  have ss: "StatusSuccess \<noteq> StatusFailed"
    by (simp add: StatusSuccess_def StatusFailed_def)
  from 2 ss show ?case
    by auto
qed

lemma scan_Inr:
  "scan installed (r0, l0, c0) = Inr (r, l, c) \<Longrightarrow>
   r = (if installed = [] then r0 else Rank (last installed)) \<and>
   l = (case last_of (\<lambda>x. \<not> IsRepeatable x) installed of None \<Rightarrow> l0 | Some x \<Rightarrow> Version x) \<and>
   c d = (case last_of (\<lambda>x. IsRepeatable x \<and> Description x = d) installed of
            None \<Rightarrow> c0 d | Some x \<Rightarrow> Some (Checksum x)) \<and>
   (\<forall>x \<in> set installed. IsRepeatable x \<or> Status x = StatusSuccess)"
proof (induction installed arbitrary: r0 l0 c0)
  case Nil
  then show ?case by simp
next
  case (Cons mig rest)
  show ?case
  proof (cases "IsRepeatable mig")
    case True
    with Cons.prems
    have "scan rest (Rank mig, l0, c0(Description mig \<mapsto> Checksum mig)) = Inr (r, l, c)"
      by simp
    from Cons.IH [OF this] True show ?thesis
      by (auto simp: last_of_Cons split: option.splits)
  next
    case False
    with Cons.prems have st: "Status mig = StatusSuccess"
      and "scan rest (Rank mig, Version mig, c0) = Inr (r, l, c)"
      by (auto split: if_splits)
    from Cons.IH [OF this(2)] False st show ?thesis
      by (auto simp: last_of_Cons split: option.splits)
  qed
qed

lemma scan_initial:
  assumes "scan installed (0, VersionNone, Map.empty) = Inr (rank, lastInstalled, checksums)"
  shows "lastInstalled = last_installed installed"
    and "checksums d = last_checksum installed d"
    and "rank = (if installed = [] then 0 else Rank (last installed))"
proof -
  note s = scan_Inr [OF assms, of d]
  show "lastInstalled = last_installed installed"
    using s by (simp add: last_installed_def)
  show "checksums d = last_checksum installed d"
    using s by (simp add: last_checksum_def split: option.splits)
  show "rank = (if installed = [] then 0 else Rank (last installed))"
    using s by simp
qed

lemma load_history_trace:
  assumes "load_history s db = (err, installed, db1, tr1)"
  shows "executed tr1 = []" and "recorded tr1 = []" and "written tr1 = []"
    and "calls tr1 = tr1"
    and "adapter_errors tr1 = (case err of None \<Rightarrow> [] | Some e \<Rightarrow> [e])"
  using assms
  by (auto simp: load_history_def Let_def split: prod.splits if_splits option.splits)

lemma Migrate_load_failed:
  "load_history (support m) db = (Some e, installed, db1, tr1) \<Longrightarrow>
   Migrate m db = (Some e, db1, tr1)"
  by (simp add: Migrate_def)

lemma Migrate_scan_failed:
  "load_history (support m) db = (None, installed, db1, tr1) \<Longrightarrow>
   scan installed (0, VersionNone, Map.empty) = Inl e \<Longrightarrow>
   Migrate m db = (Some e, db1, tr1)"
  by (simp add: Migrate_def)

text \<open>
  When the history is read and scanned without error, \<open>Migrate\<close> installs in order the
  sequential migrations above the last installed version and then the repeatable
  migrations whose checksum is not the recorded one, up to the first error.
\<close>

lemma Migrate_ran:
  assumes "load_history (support m) db = (None, installed, db1, tr1)"
    and "scan installed (0, VersionNone, Map.empty) = Inr (rank, lastInstalled, checksums)"
    and "Migrate m db = (err, db', tr)"
  shows "\<exists>rank' t.
     install_all m
       (filter (\<lambda>g. \<not> LEQ (Version g) lastInstalled) (migrations m)
        @ filter (\<lambda>g. checksums (Description g) \<noteq> Some (Checksum g)) (repeatable m))
       rank db1 = (err, rank', db', t) \<and>
     calls tr = tr1 @ calls t"
proof -
  obtain e2 rank1 db2 tr2 where
    p: "install_pending m lastInstalled (migrations m) rank db1 = (e2, rank1, db2, tr2)"
    by (cases "install_pending m lastInstalled (migrations m) rank db1") auto
  from install_pending_install_all [OF p] obtain t2 where
    a2: "install_all m (filter (\<lambda>g. \<not> LEQ (Version g) lastInstalled) (migrations m)) rank db1
          = (e2, rank1, db2, t2)" and c2: "calls t2 = calls tr2"
    by blast
  have c1: "calls tr1 = tr1"
    using assms(1) by (rule load_history_trace)
  show ?thesis
  proof (cases "e2 = None")
    case False
    with assms p have "err = e2" "db' = db2" "tr = tr1 @ tr2"
      by (simp_all add: Migrate_def)
    with False a2 c1 c2 show ?thesis
      by (simp add: install_all_append calls_append)
  next
    case True
    obtain e3 rank2 db3 tr3 where
      r: "install_repeatable m checksums (repeatable m) rank1 db2 = (e3, rank2, db3, tr3)"
      by (cases "install_repeatable m checksums (repeatable m) rank1 db2") auto
    from install_repeatable_install_all [OF r] obtain t3 where
      a3: "install_all m
             (filter (\<lambda>g. checksums (Description g) \<noteq> Some (Checksum g)) (repeatable m))
             rank1 db2 = (e3, rank2, db3, t3)" and c3: "calls t3 = calls tr3"
      by blast
    from True assms p r have "err = e3" "db' = db3" "tr = tr1 @ tr2 @ tr3"
      by (simp_all add: Migrate_def)
    with True a2 a3 c1 c2 c3 show ?thesis
      by (simp add: install_all_append calls_append)
  qed
qed

lemma Migrate_executed:
  assumes "load_history (support m) db = (None, installed, db1, tr1)"
    and "Migrate m db = (err, db', tr)"
  shows "\<exists>k. map ident (executed tr) =
       map ident (take k
         (filter (\<lambda>g. \<not> LEQ (Version g) (last_installed installed)) (migrations m)
          @ filter (\<lambda>g. last_checksum installed (Description g) \<noteq> Some (Checksum g))
              (repeatable m))) \<and>
     (err = None \<longrightarrow> map ident (executed tr) =
       map ident
         (filter (\<lambda>g. \<not> LEQ (Version g) (last_installed installed)) (migrations m)
          @ filter (\<lambda>g. last_checksum installed (Description g) \<noteq> Some (Checksum g))
              (repeatable m)))"
proof (cases "scan installed (0, VersionNone, Map.empty)")
  case (Inl e)
  from Migrate_scan_failed [OF assms(1) Inl] assms(2) have "tr = tr1" and "err = Some e"
    by simp_all
  then have "executed tr = []" "err \<noteq> None"
    using load_history_trace(1) [OF assms(1)] by simp_all
  then show ?thesis
    by (intro exI [of _ 0]) auto
next
  case (Inr st)
  obtain rank lastInstalled checksums where st: "st = (rank, lastInstalled, checksums)"
    by (cases st) auto
  note sc = Inr [unfolded st]
  have l: "lastInstalled = last_installed installed"
    using sc by (rule scan_initial)
  have c: "checksums = last_checksum installed"
    using scan_initial(2) [OF sc] by (intro ext) simp
  from Migrate_ran [OF assms(1) sc assms(2)] obtain rank' t where
    a: "install_all m
       (filter (\<lambda>g. \<not> LEQ (Version g) lastInstalled) (migrations m)
        @ filter (\<lambda>g. checksums (Description g) \<noteq> Some (Checksum g)) (repeatable m))
       rank db1 = (err, rank', db', t)" and ct: "calls tr = tr1 @ calls t"
    by blast
  have "executed tr = executed (calls tr)"
    by (simp add: executed_calls)
  also have "\<dots> = executed t"
    using load_history_trace(1) [OF assms(1)] by (simp add: ct executed_append executed_calls)
  finally have et: "executed tr = executed t" .
  from install_all_executed [OF a] show ?thesis
    unfolding et l c by (intro exI [of _ "length (executed t)"]) simp
qed


lemma Migrate_events:
  assumes "load_history (support m) db = (None, installed, db1, tr1)"
    and "scan installed (0, VersionNone, Map.empty) = Inr (rank, lastInstalled, checksums)"
    and "Migrate m db = (err, db', tr)"
  obtains rank' t where
    "install_all m
       (filter (\<lambda>g. \<not> LEQ (Version g) lastInstalled) (migrations m)
        @ filter (\<lambda>g. checksums (Description g) \<noteq> Some (Checksum g)) (repeatable m))
       rank db1 = (err, rank', db', t)"
    and "executed tr = executed t" and "recorded tr = recorded t"
    and "written tr = written t" and "adapter_errors tr = adapter_errors t"
proof -
  from Migrate_ran [OF assms] obtain rank' t where
    a: "install_all m
       (filter (\<lambda>g. \<not> LEQ (Version g) lastInstalled) (migrations m)
        @ filter (\<lambda>g. checksums (Description g) \<noteq> Some (Checksum g)) (repeatable m))
       rank db1 = (err, rank', db', t)" and ct: "calls tr = tr1 @ calls t"
    by blast
  note l = load_history_trace [OF assms(1)]
  have "executed (calls tr) = executed t"
    by (simp add: ct executed_append executed_calls l)
  then have 1: "executed tr = executed t"
    by (simp add: executed_calls)
  have "recorded (calls tr) = recorded t"
    by (simp add: ct recorded_append recorded_calls l)
  then have 2: "recorded tr = recorded t"
    by (simp add: recorded_calls)
  have "written (calls tr) = written t"
    by (simp add: ct written_append written_calls l)
  then have 3: "written tr = written t"
    by (simp add: written_calls)
  have "adapter_errors (calls tr) = adapter_errors t"
    by (simp add: ct adapter_errors_append adapter_errors_calls l)
  then have 4: "adapter_errors tr = adapter_errors t"
    by (simp add: adapter_errors_calls)
  from a 1 2 3 4 show ?thesis
    by (rule that)
qed

lemmas run_defs =
  repeatable_migration_def db_repeatable_def TypeSQL_def Migrate_def Baseline_def load_history_def install_def MemSupport_def MemMigrator_def
  FailingRecord_def FailingMigrator_def db0_def db_failed_def history_row_def
  go_migration_def create_object_def failing_def to_row_def of_row_def history_def
  IsRepeatable_def Migration_String_def VersionNone_def VersionRepeatable_def
  StatusSuccess_def StatusFailed_def TypeGo_def TypeBaseline_def Let_def

lemmas parse_defs =
  LEQ_def version_number_def ParseInt_def ParseUint_def digit_def maxUint64_def

text \<open>
  Claim C2. If the history that \<open>Migrate\<close> reads contains a sequential record with
  status failed, \<open>Migrate\<close> returns an error and installs nothing: it ends in the
  state and with the events of the reading, no callable is invoked and no record is
  passed to the adapter.
\<close>

theorem Migrate_failed_history:
  assumes "load_history (support m) db = (None, installed, db1, tr1)"
    and "\<exists>r \<in> set installed. \<not> IsRepeatable r \<and> Status r = StatusFailed"
  shows "\<exists>e. Migrate m db = (Some e, db1, tr1) \<and> executed tr1 = [] \<and> recorded tr1 = []"
proof -
  from assms(2) obtain e where "scan installed (0, VersionNone, Map.empty) = Inl e"
    using scan_failed by blast
  with assms(1) have "Migrate m db = (Some e, db1, tr1)"
    by (rule Migrate_scan_failed)
  then show ?thesis
    using load_history_trace [OF assms(1)] by simp
qed

theorem Migrate_failed_history_witness:
  "load_history (support (MemMigrator [go_migration ''2'' ''b'' (create_object ''t'')] []))
     db_failed
     = (None, [of_row (history_row 1 ''1'' ''a'' [] StatusFailed)], db_failed,
        [CallExists True None,
         CallList [of_row (history_row 1 ''1'' ''a'' [] StatusFailed)] None]) \<and>
   \<not> IsRepeatable (of_row (history_row 1 ''1'' ''a'' [] StatusFailed) :: store Migration) \<and>
   Status (of_row (history_row 1 ''1'' ''a'' [] StatusFailed) :: store Migration) = StatusFailed \<and>
   fst (Migrate (MemMigrator [go_migration ''2'' ''b'' (create_object ''t'')] []) db_failed)
     \<noteq> None \<and>
   snd (Migrate (MemMigrator [go_migration ''2'' ''b'' (create_object ''t'')] []) db_failed)
     = (db_failed,
        [CallExists True None,
         CallList [of_row (history_row 1 ''1'' ''a'' [] StatusFailed)] None])"
proof -
  let ?m = "MemMigrator [go_migration ''2'' ''b'' (create_object ''t'')] []"
  let ?r = "of_row (history_row 1 ''1'' ''a'' [] StatusFailed) :: store Migration"
  have h1: "load_history (support ?m) db_failed
     = (None, [?r], db_failed, [CallExists True None, CallList [?r] None])"
    by (simp add: run_defs)
  have h2: "\<not> IsRepeatable ?r" and h3: "Status ?r = StatusFailed"
    by (simp_all add: run_defs)
  then have "\<exists>r \<in> set [?r]. \<not> IsRepeatable r \<and> Status r = StatusFailed"
    by simp
  from Migrate_failed_history [OF h1 this] obtain e where
    "Migrate ?m db_failed = (Some e, db_failed, [CallExists True None, CallList [?r] None])"
    by blast
  with h1 h2 h3 show ?thesis
    by simp
qed


text \<open>
  Claim C3. Starting from an empty history, after the \<open>N\<close> install attempts of a call
  of \<open>Migrate\<close> (sequential and repeatable together), all writes of records having
  succeeded, the ranks written are exactly \<open>1, \<dots>, N\<close> in the order of the installs:
  the \<open>k\<close>-th migration whose callable is invoked carries rank \<open>k\<close>, and so does the
  \<open>k\<close>-th record written.
\<close>

theorem ranks_from_empty_history:
  assumes "load_history (support m) db = (None, [], db1, tr1)"
    and "Migrate m db = (err, db', tr)"
    and "written tr = recorded tr"
  shows "map Rank (executed tr) = [1..int (length (executed tr))] \<and>
         map Rank (written tr) = [1..int (length (executed tr))]"
proof -
  have sc: "scan [] (0, VersionNone, Map.empty) = Inr (0, VersionNone, Map.empty)"
    by simp
  from assms(1) sc assms(2) obtain rank' t where
    a: "install_all m
       (filter (\<lambda>g. \<not> LEQ (Version g) VersionNone) (migrations m)
        @ filter (\<lambda>g. Map.empty (Description g) \<noteq> Some (Checksum g)) (repeatable m))
       0 db1 = (err, rank', db', t)"
    and e: "executed tr = executed t" and r: "recorded tr = recorded t"
    by (rule Migrate_events)
  from install_all_ranks [OF a] e r assms(3) show ?thesis
    by simp
qed

theorem ranks_from_empty_history_witness:
  "load_history
     (support (MemMigrator
        [go_migration ''1'' ''a'' (create_object ''t1''),
         go_migration ''2'' ''b'' (create_object ''t2'')]
        [go_migration ''R'' ''r'' (create_object ''v'')])) db0
     = (None, [], db0\<lparr>table := Some []\<rparr>,
        [CallExists False None, CallCreate None, CallList [] None]) \<and>
   written (snd (snd (Migrate (MemMigrator
        [go_migration ''1'' ''a'' (create_object ''t1''),
         go_migration ''2'' ''b'' (create_object ''t2'')]
        [go_migration ''R'' ''r'' (create_object ''v'')]) db0)))
     = recorded (snd (snd (Migrate (MemMigrator
        [go_migration ''1'' ''a'' (create_object ''t1''),
         go_migration ''2'' ''b'' (create_object ''t2'')]
        [go_migration ''R'' ''r'' (create_object ''v'')]) db0))) \<and>
   map Rank (written (snd (snd (Migrate (MemMigrator
        [go_migration ''1'' ''a'' (create_object ''t1''),
         go_migration ''2'' ''b'' (create_object ''t2'')]
        [go_migration ''R'' ''r'' (create_object ''v'')]) db0)))) = [1, 2, 3] \<and>
   map col_rank (history (fst (snd (Migrate (MemMigrator
        [go_migration ''1'' ''a'' (create_object ''t1''),
         go_migration ''2'' ''b'' (create_object ''t2'')]
        [go_migration ''R'' ''r'' (create_object ''v'')]) db0)))) = [1, 2, 3]"
proof -
  let ?m = "MemMigrator
        [go_migration ''1'' ''a'' (create_object ''t1''),
         go_migration ''2'' ''b'' (create_object ''t2'')]
        [go_migration ''R'' ''r'' (create_object ''v'')]"
  obtain err db' tr where mg: "Migrate ?m db0 = (err, db', tr)"
    by (cases "Migrate ?m db0") auto
  have h1: "load_history (support ?m) db0
     = (None, [], db0\<lparr>table := Some []\<rparr>,
        [CallExists False None, CallCreate None, CallList [] None])"
    by (simp add: run_defs)
  have ex: "map Version (executed (snd (snd (Migrate ?m db0)))) = [''1'', ''2'', ''R'']"
    and h3: "written (snd (snd (Migrate ?m db0))) = recorded (snd (snd (Migrate ?m db0)))"
    and hist: "map col_rank (history (fst (snd (Migrate ?m db0)))) = [1, 2, 3]"
    by (simp_all add: run_defs parse_defs)
  from ex have len: "length (executed tr) = 3"
    unfolding mg using length_map [of Version "executed tr"] by simp
  from h3 have "written tr = recorded tr"
    by (simp add: mg)
  from ranks_from_empty_history [OF h1 mg this] len
  have "map Rank (written tr) = [1..3]"
    by simp
  also have "[1..3] = [1, 2, 3::int]"
    by (simp add: upto_rec1)
  finally have "map Rank (written (snd (snd (Migrate ?m db0)))) = [1, 2, 3]"
    by (simp add: mg)
  with h1 h3 hist show ?thesis
    by simp
qed


lemma ident_filter_IsRepeatable:
  "map ident (filter IsRepeatable xs) = filter (\<lambda>i. fst i = VersionRepeatable) (map ident xs)"
  by (induction xs) (simp_all add: ident_def IsRepeatable_def)

lemma filter_take_append:
  assumes "\<forall>x \<in> set xs. \<not> P x" and "\<forall>y \<in> set ys. P y"
  shows "filter P (take k (xs @ ys)) = take (k - length xs) ys"
proof -
  have "filter P (take k xs) = []"
    using assms(1) by (auto simp: filter_empty_conv dest: in_set_takeD)
  moreover have "filter P (take (k - length xs) ys) = take (k - length xs) ys"
    using assms(2) by (auto simp: filter_id_conv dest: in_set_takeD)
  ultimately show ?thesis
    by simp
qed

text \<open>
  Claim C4. In \<open>Migrate\<close>'s repeatable loop a registered repeatable migration is
  installed if and only if the history records no checksum for its description or
  the last one recorded differs from its own. With the registry as \<open>Add\<close> builds it
  and the history read as \<open>installed\<close>: the repeatable migrations whose callable a
  call of \<open>Migrate\<close> invokes are, in order, those registered ones whose checksum is not
  the last recorded for their description: all of them when the call returns no error,
  and the ones before the first error otherwise. An unchanged script is not among them.
\<close>

theorem repeatable_gating:
  assumes "registry_ok m"
    and "load_history (support m) db = (None, installed, db1, tr1)"
    and "Migrate m db = (err, db', tr)"
  shows "prefix (map ident (filter IsRepeatable (executed tr)))
           (map ident
              (filter (\<lambda>g. last_checksum installed (Description g) \<noteq> Some (Checksum g))
                 (repeatable m))) \<and>
         (err = None \<longrightarrow>
            map ident (filter IsRepeatable (executed tr)) =
            map ident
              (filter (\<lambda>g. last_checksum installed (Description g) \<noteq> Some (Checksum g))
                 (repeatable m)))"
proof -
  let ?P = "filter (\<lambda>g. \<not> LEQ (Version g) (last_installed installed)) (migrations m)"
  let ?Q = "filter (\<lambda>g. last_checksum installed (Description g) \<noteq> Some (Checksum g))
      (repeatable m)"
  let ?R = "\<lambda>i :: Version \<times> string \<times> Type \<times> string. fst i = VersionRepeatable"
  have p: "\<forall>x \<in> set (map ident ?P). \<not> ?R x"
    using assms(1) by (auto simp: registry_ok_def ident_def IsRepeatable_def)
  have q: "\<forall>y \<in> set (map ident ?Q). ?R y"
    using assms(1) by (auto simp: registry_ok_def ident_def IsRepeatable_def)
  from Migrate_executed [OF assms(2,3)] obtain k where
    k: "map ident (executed tr) = map ident (take k (?P @ ?Q))"
    and all: "err = None \<longrightarrow> map ident (executed tr) = map ident (?P @ ?Q)"
    by blast
  have "map ident (filter IsRepeatable (executed tr)) = filter ?R (map ident (executed tr))"
    by (rule ident_filter_IsRepeatable)
  also have "\<dots> = filter ?R (take k (map ident ?P @ map ident ?Q))"
    by (simp add: k take_map)
  also have "\<dots> = take (k - length (map ident ?P)) (map ident ?Q)"
    using p q by (rule filter_take_append)
  finally have 1: "prefix (map ident (filter IsRepeatable (executed tr))) (map ident ?Q)"
    by (simp add: take_is_prefix)
  have 2: "map ident (filter IsRepeatable (executed tr)) = map ident ?Q" if "err = None"
  proof -
    have "map ident (filter IsRepeatable (executed tr)) = filter ?R (map ident (executed tr))"
      by (rule ident_filter_IsRepeatable)
    also have "\<dots> = filter ?R (map ident ?P) @ filter ?R (map ident ?Q)"
      using all that by simp
    also have "filter ?R (map ident ?P) = []"
      using p by (simp only: filter_empty_conv)
    also have "filter ?R (map ident ?Q) = map ident ?Q"
      using q by (simp only: filter_id_conv)
    finally show ?thesis by simp
  qed
  from 1 2 show ?thesis
    by blast
qed


theorem repeatable_gating_witness:
  "registry_ok (MemMigrator []
     [repeatable_migration ''views'' ''def'' (create_object ''v''),
      repeatable_migration ''procs'' ''p2'' (create_object ''p''),
      repeatable_migration ''fresh'' ''n1'' (create_object ''n'')]) \<and>
   fst (load_history (support (MemMigrator []
     [repeatable_migration ''views'' ''def'' (create_object ''v''),
      repeatable_migration ''procs'' ''p2'' (create_object ''p''),
      repeatable_migration ''fresh'' ''n1'' (create_object ''n'')])) db_repeatable) = None \<and>
   fst (Migrate (MemMigrator []
     [repeatable_migration ''views'' ''def'' (create_object ''v''),
      repeatable_migration ''procs'' ''p2'' (create_object ''p''),
      repeatable_migration ''fresh'' ''n1'' (create_object ''n'')]) db_repeatable) = None \<and>
   map ident (filter IsRepeatable (executed (snd (snd (Migrate (MemMigrator []
     [repeatable_migration ''views'' ''def'' (create_object ''v''),
      repeatable_migration ''procs'' ''p2'' (create_object ''p''),
      repeatable_migration ''fresh'' ''n1'' (create_object ''n'')]) db_repeatable)))))
     = [(''R'', ''procs'', ''SQL'', ''p2''), (''R'', ''fresh'', ''SQL'', ''n1'')]"
proof -
  let ?m = "MemMigrator []
     [repeatable_migration ''views'' ''def'' (create_object ''v''),
      repeatable_migration ''procs'' ''p2'' (create_object ''p''),
      repeatable_migration ''fresh'' ''n1'' (create_object ''n'')]"
  let ?h = "map of_row [history_row 1 ''R'' ''views'' ''abc'' StatusSuccess,
                     history_row 2 ''R'' ''views'' ''def'' StatusSuccess,
                     history_row 3 ''R'' ''procs'' ''p1'' StatusSuccess] :: store Migration list"
  obtain err db' tr where mg: "Migrate ?m db_repeatable = (err, db', tr)"
    by (cases "Migrate ?m db_repeatable") auto
  have h1: "registry_ok ?m"
    by (simp add: registry_ok_def run_defs)
  have h2: "load_history (support ?m) db_repeatable
      = (None, ?h, db_repeatable, [CallExists True None, CallList ?h None])"
    by (simp add: run_defs)
  have h3: "fst (Migrate ?m db_repeatable) = None"
    by (simp add: run_defs parse_defs)
  then have e: "err = None"
    by (simp add: mg)
  have f: "map ident
      (filter (\<lambda>g. last_checksum ?h (Description g) \<noteq> Some (Checksum g)) (repeatable ?m))
      = [(''R'', ''procs'', ''SQL'', ''p2''), (''R'', ''fresh'', ''SQL'', ''n1'')]"
    by (simp add: last_checksum_def last_of_def ident_def run_defs)
  from repeatable_gating [OF h1 h2 mg] e f
  have "map ident (filter IsRepeatable (executed tr))
      = [(''R'', ''procs'', ''SQL'', ''p2''), (''R'', ''fresh'', ''SQL'', ''n1'')]"
    by simp
  with h1 h2 h3 show ?thesis
    by (simp add: mg)
qed

lemma version_number_None: "version_number VersionNone = 0"
  by (simp add: version_number_def ParseInt_def VersionNone_def)

lemma version_number_Repeatable: "version_number VersionRepeatable = 0"
  by (simp add: run_defs parse_defs)

lemma ParseInt_syntax_error: "snd (ParseInt s) = Some ErrSyntax \<Longrightarrow> fst (ParseInt s) = 0"
  by (auto simp: ParseInt_def Let_def split: prod.splits if_splits)

text \<open>
  Claim C10, as amended. A registered sequential migration whose version parses to a
  number at most 0 is not installed by \<open>Migrate\<close> when the version that the history
  records as installed last parses to a number at least 0; an empty history is such a
  history, since the sentinel \<open>VersionNone\<close> parses to 0. With the registry as \<open>Add\<close>
  builds it: every sequential migration whose callable a call of \<open>Migrate\<close> invokes has
  a version that parses to a positive number.
\<close>

theorem nonpositive_version_not_installed:
  assumes "registry_ok m"
    and "load_history (support m) db = (None, installed, db1, tr1)"
    and "0 \<le> version_number (last_installed installed)"
    and "Migrate m db = (err, db', tr)"
  shows "\<forall>g \<in> set (executed tr). \<not> IsRepeatable g \<longrightarrow> 0 < version_number (Version g)"
proof (intro ballI impI)
  fix g
  assume g: "g \<in> set (executed tr)" and ng: "\<not> IsRepeatable g"
  let ?P = "filter (\<lambda>g. \<not> LEQ (Version g) (last_installed installed)) (migrations m)"
  let ?Q = "filter (\<lambda>g. last_checksum installed (Description g) \<noteq> Some (Checksum g))
      (repeatable m)"
  from Migrate_executed [OF assms(2,4)] obtain k where
    eq: "map ident (executed tr) = map ident (take k (?P @ ?Q))"
    by blast
  from g have "ident g \<in> set (map ident (executed tr))"
    by simp
  then have "ident g \<in> set (map ident (take k (?P @ ?Q)))"
    unfolding eq .
  then have "ident g \<in> ident ` set (take k (?P @ ?Q))"
    by (simp only: set_map)
  then obtain h where i: "ident g = ident h" and h: "h \<in> set (take k (?P @ ?Q))"
    ..
  from h have hpq: "h \<in> set (?P @ ?Q)"
    by (rule in_set_takeD)
  from i have v: "Version h = Version g"
    by (simp add: ident_def)
  have nh: "\<not> IsRepeatable h"
    using ng v by (simp add: IsRepeatable_def)
  have "h \<notin> set (repeatable m)"
    using assms(1) nh unfolding registry_ok_def by blast
  then have "h \<notin> set ?Q"
    by simp
  with hpq have "h \<in> set ?P"
    by auto
  then have "\<not> LEQ (Version h) (last_installed installed)"
    by simp
  with assms(3) v show "0 < version_number (Version g)"
    by (simp add: LEQ_def version_number_def)
qed

theorem nonpositive_version_not_installed_witness:
  "registry_ok (MemMigrator
     [go_migration ''0'' ''zero'' (create_object ''t0''),
      go_migration ''-3'' ''minus'' (create_object ''t1''),
      go_migration ''abc'' ''word'' (create_object ''t2''),
      go_migration ''1'' ''one'' (create_object ''t3'')] []) \<and>
   load_history (support (MemMigrator
     [go_migration ''0'' ''zero'' (create_object ''t0''),
      go_migration ''-3'' ''minus'' (create_object ''t1''),
      go_migration ''abc'' ''word'' (create_object ''t2''),
      go_migration ''1'' ''one'' (create_object ''t3'')] [])) db0
     = (None, [], db0\<lparr>table := Some []\<rparr>,
        [CallExists False None, CallCreate None, CallList [] None]) \<and>
   0 \<le> version_number (last_installed ([] :: store Migration list)) \<and>
   map Version (executed (snd (snd (Migrate (MemMigrator
     [go_migration ''0'' ''zero'' (create_object ''t0''),
      go_migration ''-3'' ''minus'' (create_object ''t1''),
      go_migration ''abc'' ''word'' (create_object ''t2''),
      go_migration ''1'' ''one'' (create_object ''t3'')] []) db0)))) = [''1''] \<and>
   0 < version_number ''1''"
proof -
  let ?m = "MemMigrator
     [go_migration ''0'' ''zero'' (create_object ''t0''),
      go_migration ''-3'' ''minus'' (create_object ''t1''),
      go_migration ''abc'' ''word'' (create_object ''t2''),
      go_migration ''1'' ''one'' (create_object ''t3'')] []"
  obtain err db' tr where mg: "Migrate ?m db0 = (err, db', tr)"
    by (cases "Migrate ?m db0") auto
  have h1: "registry_ok ?m"
    by (simp add: registry_ok_def run_defs)
  have h2: "load_history (support ?m) db0
     = (None, [], db0\<lparr>table := Some []\<rparr>,
        [CallExists False None, CallCreate None, CallList [] None])"
    by (simp add: run_defs)
  have h3: "0 \<le> version_number (last_installed ([] :: store Migration list))"
    by (simp add: last_installed_def version_number_None)
  have ex: "map Version (executed (snd (snd (Migrate ?m db0)))) = [''1'']"
    by (simp add: run_defs parse_defs)
  then obtain g where g: "executed tr = [g]" and v: "Version g = ''1''"
    by (auto simp: mg)
  have "\<not> IsRepeatable g"
    using v by (simp add: run_defs)
  with nonpositive_version_not_installed [OF h1 h2 h3 mg] g
  have "0 < version_number (Version g)"
    by simp
  with v h1 h2 h3 ex show ?thesis
    by simp
qed

text \<open>
  Claim C10 as stated fails: after a baseline at version \<open>-5\<close> the history records a
  negative version as installed last, and \<open>Migrate\<close> installs the registered migration
  of version \<open>0\<close>.
\<close>

theorem nonpositive_version_installed_after_negative_baseline:
  "version_number ''0'' \<le> 0 \<and>
   map col_version
     (history (fst (snd (Baseline (MemMigrator [] []) ''-5'' ''base'' db0)))) = [''-5''] \<and>
   map Version (executed (snd (snd
     (Migrate (MemMigrator [go_migration ''0'' ''zero'' (create_object ''t0'')] [])
        (fst (snd (Baseline (MemMigrator [] []) ''-5'' ''base'' db0))))))) = [''0'']"
  by (simp add: run_defs parse_defs)

text \<open>
  Claim C6, as amended. When the callable of a migration returns an error and the
  write of the history record fails as well, \<open>install\<close> returns an error of its own
  kind, \<open>record migration: \<dots>\<close>, made of the migration's version, description and
  type and of the error of the write. The record passed to the adapter has status
  failed; the error of the callable is not part of the error returned.
\<close>

theorem install_record_error:
  assumes "Execute mig = Some f"
    and "f db = (Some e, db1)"
    and "RecordMigration (support m) db1
           (mig\<lparr>Date := now m db, ExecutionTime := (now m db1 - now m db) sdiv 1000000,
                 Status := StatusFailed\<rparr>) = (Some r, db2)"
  shows "install m mig db =
     (Some (''record migration: '' @ Migration_String mig @ '': '' @ r), db2,
      [Log (''installing: '' @ Migration_String mig),
       CallExecute (mig\<lparr>Date := now m db\<rparr>) (Some e),
       CallRecord (mig\<lparr>Date := now m db,
                         ExecutionTime := (now m db1 - now m db) sdiv 1000000,
                         Status := StatusFailed\<rparr>) (Some r)])"
  using install_Some [OF assms(1,2) refl, of m "Some r" db2] assms(3) by simp

theorem install_record_error_witness:
  "Execute (go_migration ''1'' ''a'' (failing ''boom'')) = Some (failing ''boom'') \<and>
   failing ''boom'' db0 = (Some ''boom'', db0) \<and>
   RecordMigration (support (FailingMigrator [] [])) db0
     ((go_migration ''1'' ''a'' (failing ''boom''))
        \<lparr>Date := now (FailingMigrator [] []) db0,
          ExecutionTime :=
            (now (FailingMigrator [] []) db0 - now (FailingMigrator [] []) db0) sdiv 1000000,
          Status := StatusFailed\<rparr>) = (Some ''disk full'', db0) \<and>
   fst (install (FailingMigrator [] []) (go_migration ''1'' ''a'' (failing ''boom'')) db0)
     = Some ''record migration: @Migration|version=1|description=a|type=Go: disk full''"
proof -
  let ?m = "FailingMigrator [] []"
  let ?g = "go_migration ''1'' ''a'' (failing ''boom'')"
  have h1: "Execute ?g = Some (failing ''boom'')"
    by (simp add: go_migration_def)
  have h2: "failing ''boom'' db0 = (Some ''boom'', db0)"
    by (simp add: failing_def)
  have h3: "RecordMigration (support ?m) db0
     (?g\<lparr>Date := now ?m db0, ExecutionTime := (now ?m db0 - now ?m db0) sdiv 1000000,
          Status := StatusFailed\<rparr>) = (Some ''disk full'', db0)"
    by (simp add: FailingMigrator_def FailingRecord_def)
  have "Migration_String ?g = ''@Migration|version=1|description=a|type=Go''"
    by (simp add: Migration_String_def go_migration_def TypeGo_def)
  with install_record_error [OF h1 h2 h3]
  have "fst (install ?m ?g db0)
     = Some ''record migration: @Migration|version=1|description=a|type=Go: disk full''"
    by simp
  with h1 h2 h3 show ?thesis
    by simp
qed

text \<open>
  Claim C6 as stated fails: two callables that fail with different errors give the
  same error of \<open>install\<close> when the write of the record fails, and the text of the
  callable's error does not occur in it.
\<close>

theorem install_error_omits_execution_error:
  "fst (install (FailingMigrator [] []) (go_migration ''1'' ''a'' (failing ''boom'')) db0)
     = Some ''record migration: @Migration|version=1|description=a|type=Go: disk full'' \<and>
   fst (install (FailingMigrator [] []) (go_migration ''1'' ''a'' (failing ''locked'')) db0)
     = Some ''record migration: @Migration|version=1|description=a|type=Go: disk full'' \<and>
   \<not> contains ''record migration: @Migration|version=1|description=a|type=Go: disk full''
       ''boom''"
  by (simp add: run_defs HasPrefix_def)

lemma load_history_propagates:
  "load_history s db = (err, installed, db1, tr1) \<Longrightarrow> adapter_errors tr1 \<noteq> [] \<Longrightarrow>
   err \<noteq> None"
  using load_history_trace(5) [of s db err installed db1 tr1] by (cases err) simp_all

lemma Migrate_propagates_adapter_errors:
  assumes "Migrate m db = (err, db', tr)" and "adapter_errors tr \<noteq> []"
  shows "err \<noteq> None"
proof -
  obtain e installed db1 tr1 where l: "load_history (support m) db = (e, installed, db1, tr1)"
    by (cases "load_history (support m) db") auto
  show ?thesis
  proof (cases e)
    case (Some x)
    with l have "Migrate m db = (Some x, db1, tr1)"
      by (simp add: Migrate_load_failed)
    with assms(1) show ?thesis
      by auto
  next
    case None
    note l = l [unfolded None]
    show ?thesis
    proof (cases "scan installed (0, VersionNone, Map.empty)")
      case (Inl x)
      with l have "Migrate m db = (Some x, db1, tr1)"
        by (simp add: Migrate_scan_failed)
      with assms(1) show ?thesis
        by auto
    next
      case (Inr st)
      obtain rank lastInstalled checksums where st: "st = (rank, lastInstalled, checksums)"
        by (cases st) auto
      from l Inr [unfolded st] assms(1) obtain rank' t where
        a: "install_all m
           (filter (\<lambda>g. \<not> LEQ (Version g) lastInstalled) (migrations m)
            @ filter (\<lambda>g. checksums (Description g) \<noteq> Some (Checksum g)) (repeatable m))
           rank db1 = (err, rank', db', t)"
        and "adapter_errors tr = adapter_errors t"
        by (rule Migrate_events)
      with assms(2) install_all_written [OF a] show ?thesis
        by simp
    qed
  qed
qed

lemma Clean_propagates_adapter_errors:
  "Clean_all m db = (err, db', tr) \<Longrightarrow> adapter_errors tr \<noteq> [] \<Longrightarrow> err \<noteq> None"
  by (cases err) (auto simp: Clean_all_def split: prod.splits)

text \<open>
  Claim C7. Every failure of the adapter met by \<open>Migrate\<close>, \<open>Baseline\<close> or \<open>Clean\<close> is
  fatal and reaches the caller; in particular the error of the record write of
  \<open>Baseline\<close> is never discarded. The lemmas above show it for \<open>Migrate\<close>, for \<open>Clean\<close>
  and for the reading that opens \<open>Baseline\<close>. \<open>Baseline\<close> itself does not look at the
  error of its own write: with an adapter whose writes fail, on a store without
  history, it returns no error although the adapter has reported one, and the
  history stays empty.
\<close>

theorem Baseline_discards_record_error:
  "Baseline (FailingMigrator [] []) ''1'' ''base'' db0 =
     (None, db0\<lparr>table := Some []\<rparr>,
      [CallExists False None, CallCreate None, CallList [] None,
       CallRecord \<lparr>Rank = 1, Version = ''1'', Description = ''base'', Type = TypeBaseline,
                   Checksum = [], Date = 0, ExecutionTime = 0, Status = StatusSuccess,
                   Execute = None\<rparr> (Some ''disk full''),
       CallExists True None, CallList [] None])"
  by (simp add: run_defs)

lemma history_simps [simp]:
  "table db = None \<Longrightarrow> history db = []"
  "table db = Some rows \<Longrightarrow> history db = rows"
  by (simp_all add: history_def)

lemma load_history_Mem:
  "load_history MemSupport db =
     (None, map of_row (history db), db\<lparr>table := Some (history db)\<rparr>,
      (case table db of
         None \<Rightarrow> [CallExists False None, CallCreate None, CallList [] None]
       | Some rows \<Rightarrow> [CallExists True None, CallList (map of_row rows) None]))"
  by (cases "table db") (simp_all add: load_history_def MemSupport_def)

lemma store_table_same: "table db = Some rows \<Longrightarrow> db\<lparr>table := Some rows\<rparr> = db"
  by simp

lemma keeps_table_Rank [simp]: "keeps_table (mig\<lparr>Rank := r\<rparr>) = keeps_table mig"
  by (simp add: keeps_table_def)

lemma install_Mem:
  assumes "support m = MemSupport" and "table db = Some rows" and "keeps_table mig"
    and "install m mig db = (err, db', tr)"
  shows "table db' = Some (rows @ map to_row (recorded tr))"
  using assms(4)
proof (cases rule: install_cases)
  case nil
  with assms(2) show ?thesis by simp
next
  case (run f e db1 g r)
  from assms(3) run(1) have "table (snd (f db)) = table db"
    by (simp add: keeps_table_def)
  with run(2) assms(2) have "table db1 = Some rows"
    by simp
  with run(4) assms(1) have "table db' = Some (rows @ [to_row g])"
    by (auto simp: MemSupport_def)
  then show ?thesis
    by (simp add: run(5))
qed

lemma install_all_Mem:
  "support m = MemSupport \<Longrightarrow> table db = Some rows \<Longrightarrow> \<forall>g \<in> set migs. keeps_table g \<Longrightarrow>
   install_all m migs rank db = (err, rank', db', tr) \<Longrightarrow>
   table db' = Some (rows @ map to_row (recorded tr))"
proof (induction migs arbitrary: rank db rows err rank' db' tr)
  case Nil
  then show ?case by simp
next
  case (Cons mig rest)
  have k: "keeps_table (mig\<lparr>Rank := rank + 1\<rparr>)"
    using Cons.prems(3) by simp
  from Cons.prems(4) show ?case
  proof (cases rule: install_all_Cons)
    case (stop db1)
    from install_Mem [OF Cons.prems(1,2) k stop(1)] stop(3) show ?thesis
      by simp
  next
    case (continue db1 tr1 t)
    from install_Mem [OF Cons.prems(1,2) k continue(1)]
    have t1: "table db1 = Some (rows @ map to_row (recorded tr1))" .
    have "\<forall>g \<in> set rest. keeps_table g"
      using Cons.prems(3) by simp
    from Cons.IH [OF Cons.prems(1) t1 this continue(2)] show ?thesis
      by (simp add: continue(3) recorded_append)
  qed
qed

lemma filter_take_append_first:
  assumes "\<forall>x \<in> set xs. P x" and "\<forall>y \<in> set ys. \<not> P y"
  shows "filter P (take k (xs @ ys)) = take k xs"
proof -
  have "filter P (take k xs) = take k xs"
    using assms(1) by (auto simp: filter_id_conv dest: in_set_takeD)
  moreover have "filter P (take (k - length xs) ys) = []"
    using assms(2) by (auto simp: filter_empty_conv dest: in_set_takeD)
  ultimately show ?thesis
    by simp
qed

lemma ident_filter_sequential:
  "map ident (filter (\<lambda>g. \<not> IsRepeatable g) xs)
     = filter (\<lambda>i. fst i \<noteq> VersionRepeatable) (map ident xs)"
  by (induction xs) (simp_all add: ident_def IsRepeatable_def)

text \<open>
  The sequential migrations whose callable \<open>Migrate\<close> invokes: those above the last
  installed version, in order, up to the first error.
\<close>

lemma Migrate_executed_sequential:
  assumes "registry_ok m"
    and "load_history (support m) db = (None, installed, db1, tr1)"
    and "Migrate m db = (err, db', tr)"
  shows "prefix (map ident (filter (\<lambda>g. \<not> IsRepeatable g) (executed tr)))
           (map ident
              (filter (\<lambda>g. \<not> LEQ (Version g) (last_installed installed)) (migrations m))) \<and>
         (err = None \<longrightarrow>
            map ident (filter (\<lambda>g. \<not> IsRepeatable g) (executed tr)) =
            map ident
              (filter (\<lambda>g. \<not> LEQ (Version g) (last_installed installed)) (migrations m)))"
proof -
  let ?P = "filter (\<lambda>g. \<not> LEQ (Version g) (last_installed installed)) (migrations m)"
  let ?Q = "filter (\<lambda>g. last_checksum installed (Description g) \<noteq> Some (Checksum g))
      (repeatable m)"
  let ?S = "\<lambda>i :: Version \<times> string \<times> Type \<times> string. fst i \<noteq> VersionRepeatable"
  have p: "\<forall>x \<in> set (map ident ?P). ?S x"
    using assms(1) by (auto simp: registry_ok_def ident_def IsRepeatable_def)
  have q: "\<forall>y \<in> set (map ident ?Q). \<not> ?S y"
    using assms(1) by (auto simp: registry_ok_def ident_def IsRepeatable_def)
  from Migrate_executed [OF assms(2,3)] obtain k where
    k: "map ident (executed tr) = map ident (take k (?P @ ?Q))"
    and all: "err = None \<longrightarrow> map ident (executed tr) = map ident (?P @ ?Q)"
    by blast
  have "map ident (filter (\<lambda>g. \<not> IsRepeatable g) (executed tr))
      = filter ?S (map ident (executed tr))"
    by (rule ident_filter_sequential)
  also have "\<dots> = filter ?S (take k (map ident ?P @ map ident ?Q))"
    by (simp add: k take_map)
  also have "\<dots> = take k (map ident ?P)"
    using p q by (rule filter_take_append_first)
  finally have 1: "prefix (map ident (filter (\<lambda>g. \<not> IsRepeatable g) (executed tr)))
      (map ident ?P)"
    by (simp add: take_is_prefix)
  have 2: "map ident (filter (\<lambda>g. \<not> IsRepeatable g) (executed tr)) = map ident ?P"
    if "err = None"
  proof -
    have "map ident (filter (\<lambda>g. \<not> IsRepeatable g) (executed tr))
        = filter ?S (map ident (executed tr))"
      by (rule ident_filter_sequential)
    also have "\<dots> = filter ?S (map ident ?P) @ filter ?S (map ident ?Q)"
      using all that by simp
    also have "filter ?S (map ident ?Q) = []"
      using q by (simp only: filter_empty_conv)
    also have "filter ?S (map ident ?P) = map ident ?P"
      using p by (simp only: filter_id_conv)
    finally show ?thesis by simp
  qed
  from 1 2 show ?thesis
    by blast
qed

lemma LEQ_Repeatable: "LEQ v VersionRepeatable = LEQ v VersionNone"
  using version_number_None version_number_Repeatable by (simp add: LEQ_def version_number_def)

lemma last_installed_single:
  "LEQ v (last_installed [r]) = LEQ v (Version r)"
  by (simp add: last_installed_def last_of_def IsRepeatable_def LEQ_Repeatable)


lemma Baseline_Mem_nonempty:
  assumes "history db \<noteq> []"
  shows "Baseline (MemMigrator seq rep) version description db =
     (Some ''unable to baseline: found existing migrations'', db,
      [CallExists True None, CallList (map of_row (history db)) None])"
proof -
  from assms obtain rows where t: "table db = Some rows"
    by (cases "table db") simp_all
  then have h: "history db = rows"
    by simp
  with assms have "rows \<noteq> []"
    by simp
  with t h show ?thesis
    by (simp add: Baseline_def MemMigrator_def load_history_Mem)
qed

lemma Baseline_Mem_empty:
  assumes "history db = []"
    and "Migrate (MemMigrator seq rep)
           (db\<lparr>table := Some [to_row (baseline_record version description (clock db) :: store Migration)]\<rparr>)
         = (err, db', tr3)"
  shows "Baseline (MemMigrator seq rep) version description db =
     (err, db',
      (case table db of
         None \<Rightarrow> [CallExists False None, CallCreate None, CallList [] None]
       | Some rows \<Rightarrow> [CallExists True None, CallList [] None])
      @ [CallRecord (baseline_record version description (clock db)) None] @ tr3)"
proof -
  have "RecordMigration MemSupport (db\<lparr>table := Some []\<rparr>)
      (baseline_record version description (clock db))
      = (None, db\<lparr>table := Some [to_row (baseline_record version description (clock db) :: store Migration)]\<rparr>)"
    by (simp add: MemSupport_def)
  with assms show ?thesis
    by (cases "table db")
      (simp_all add: Baseline_def MemMigrator_def load_history_Mem baseline_record_def)
qed

text \<open>
  Claim C5. If the history is non-empty when \<open>Baseline\<close> is called, \<open>Baseline\<close> returns
  an error and writes no record. If the history is empty, \<open>Baseline\<close> writes exactly one
  record, with rank 1, the given version and description, the baseline type and
  status success, and then runs \<open>Migrate\<close> on the store that holds this record: the
  sequential migrations whose callable is invoked are, in order, the registered ones
  with a version above the baseline version (all of them when no error is returned,
  those before the first error otherwise), and the ones at or below it are skipped.
  Stated for the adapter over a table in memory and the registry as \<open>Add\<close> builds it.
\<close>

theorem Baseline_precondition:
  assumes "registry_ok (MemMigrator seq rep)"
  shows "(history db \<noteq> [] \<longrightarrow>
           (\<exists>tr. Baseline (MemMigrator seq rep) version description db =
                   (Some ''unable to baseline: found existing migrations'', db, tr) \<and>
                 recorded tr = [] \<and> executed tr = [])) \<and>
         (history db = [] \<longrightarrow>
           (\<exists>err db' tr1 tr3.
              Baseline (MemMigrator seq rep) version description db =
                (err, db',
                 tr1 @ [CallRecord (baseline_record version description (clock db)) None] @ tr3) \<and>
              recorded tr1 = [] \<and> executed tr1 = [] \<and>
              Migrate (MemMigrator seq rep)
                (db\<lparr>table := Some [to_row (baseline_record version description (clock db) :: store Migration)]\<rparr>)
                = (err, db', tr3) \<and>
              prefix (map ident (filter (\<lambda>g. \<not> IsRepeatable g) (executed tr3)))
                (map ident (filter (\<lambda>g. \<not> LEQ (Version g) version) seq)) \<and>
              (err = None \<longrightarrow>
                 map ident (filter (\<lambda>g. \<not> IsRepeatable g) (executed tr3)) =
                 map ident (filter (\<lambda>g. \<not> LEQ (Version g) version) seq))))"
proof (intro conjI impI)
  assume "history db \<noteq> []"
  then have "Baseline (MemMigrator seq rep) version description db =
     (Some ''unable to baseline: found existing migrations'', db,
      [CallExists True None, CallList (map of_row (history db)) None])"
    by (rule Baseline_Mem_nonempty)
  then show "\<exists>tr. Baseline (MemMigrator seq rep) version description db =
       (Some ''unable to baseline: found existing migrations'', db, tr) \<and>
     recorded tr = [] \<and> executed tr = []"
    by simp
next
  assume empty: "history db = []"
  let ?m = "MemMigrator seq rep"
  let ?B = "baseline_record version description (clock db) :: store Migration"
  let ?db2 = "db\<lparr>table := Some [to_row ?B]\<rparr>"
  let ?tr1 = "(case table db of
         None \<Rightarrow> [CallExists False None, CallCreate None, CallList [] None]
       | Some rows \<Rightarrow> [CallExists True None, CallList [] None]) :: store event list"
  obtain err db' tr3 where mg: "Migrate ?m ?db2 = (err, db', tr3)"
    by (cases "Migrate ?m ?db2") auto
  from empty mg have b: "Baseline ?m version description db =
      (err, db', ?tr1 @ [CallRecord ?B None] @ tr3)"
    by (rule Baseline_Mem_empty)
  have t1: "recorded ?tr1 = []" "executed ?tr1 = []"
    by (simp_all split: option.splits)
  have l: "load_history (support ?m) ?db2 =
      (None, [of_row (to_row ?B)], ?db2, [CallExists True None, CallList [of_row (to_row ?B)] None])"
    by (simp add: MemMigrator_def load_history_Mem)
  have m: "migrations ?m = seq"
    by (simp add: MemMigrator_def)
  have v: "LEQ x (last_installed [of_row (to_row ?B) :: store Migration]) = LEQ x version" for x
    by (simp add: last_installed_single of_row_def to_row_def baseline_record_def)
  from Migrate_executed_sequential [OF assms l mg]
  have "prefix (map ident (filter (\<lambda>g. \<not> IsRepeatable g) (executed tr3)))
                (map ident (filter (\<lambda>g. \<not> LEQ (Version g) version) seq)) \<and>
              (err = None \<longrightarrow>
                 map ident (filter (\<lambda>g. \<not> IsRepeatable g) (executed tr3)) =
                 map ident (filter (\<lambda>g. \<not> LEQ (Version g) version) seq))"
    unfolding m v .
  with b t1 mg show "\<exists>err db' tr1 tr3.
              Baseline (MemMigrator seq rep) version description db =
                (err, db',
                 tr1 @ [CallRecord (baseline_record version description (clock db)) None] @ tr3) \<and>
              recorded tr1 = [] \<and> executed tr1 = [] \<and>
              Migrate (MemMigrator seq rep)
                (db\<lparr>table := Some [to_row (baseline_record version description (clock db) :: store Migration)]\<rparr>)
                = (err, db', tr3) \<and>
              prefix (map ident (filter (\<lambda>g. \<not> IsRepeatable g) (executed tr3)))
                (map ident (filter (\<lambda>g. \<not> LEQ (Version g) version) seq)) \<and>
              (err = None \<longrightarrow>
                 map ident (filter (\<lambda>g. \<not> IsRepeatable g) (executed tr3)) =
                 map ident (filter (\<lambda>g. \<not> LEQ (Version g) version) seq))"
    by blast
qed


theorem Baseline_precondition_witness:
  "registry_ok (MemMigrator
     [go_migration ''1'' ''a'' (create_object ''t1''),
      go_migration ''2'' ''b'' (create_object ''t2''),
      go_migration ''3'' ''c'' (create_object ''t3'')] []) \<and>
   history db_failed \<noteq> [] \<and>
   Baseline (MemMigrator
     [go_migration ''1'' ''a'' (create_object ''t1''),
      go_migration ''2'' ''b'' (create_object ''t2''),
      go_migration ''3'' ''c'' (create_object ''t3'')] []) ''2'' ''base'' db_failed
     = (Some ''unable to baseline: found existing migrations'', db_failed,
        [CallExists True None, CallList (map of_row (history db_failed)) None]) \<and>
   history db0 = [] \<and>
   fst (Baseline (MemMigrator
     [go_migration ''1'' ''a'' (create_object ''t1''),
      go_migration ''2'' ''b'' (create_object ''t2''),
      go_migration ''3'' ''c'' (create_object ''t3'')] []) ''2'' ''base'' db0) = None \<and>
   map ident (filter (\<lambda>g. \<not> IsRepeatable g) (executed (snd (snd (Migrate (MemMigrator
     [go_migration ''1'' ''a'' (create_object ''t1''),
      go_migration ''2'' ''b'' (create_object ''t2''),
      go_migration ''3'' ''c'' (create_object ''t3'')] [])
     (db0\<lparr>table := Some [to_row (baseline_record ''2'' ''base'' (clock db0) :: store Migration)]\<rparr>))))))
     = [(''3'', ''c'', ''Go'', [])] \<and>
   map col_version (history (fst (snd (Baseline (MemMigrator
     [go_migration ''1'' ''a'' (create_object ''t1''),
      go_migration ''2'' ''b'' (create_object ''t2''),
      go_migration ''3'' ''c'' (create_object ''t3'')] []) ''2'' ''base'' db0))))
     = [''2'', ''3''] \<and>
   map col_rank (history (fst (snd (Baseline (MemMigrator
     [go_migration ''1'' ''a'' (create_object ''t1''),
      go_migration ''2'' ''b'' (create_object ''t2''),
      go_migration ''3'' ''c'' (create_object ''t3'')] []) ''2'' ''base'' db0))))
     = [1, 2]"
proof -
  let ?seq = "[go_migration ''1'' ''a'' (create_object ''t1''),
      go_migration ''2'' ''b'' (create_object ''t2''),
      go_migration ''3'' ''c'' (create_object ''t3'')]"
  let ?m = "MemMigrator ?seq []"
  let ?db2 = "db0\<lparr>table := Some [to_row (baseline_record ''2'' ''base'' (clock db0) :: store Migration)]\<rparr>"
  have h0: "registry_ok ?m"
    by (simp add: registry_ok_def run_defs)
  have h1: "history db_failed \<noteq> []"
    by (simp add: run_defs)
  have h2: "history db0 = []"
    by (simp add: run_defs)
  note inst = Baseline_precondition [OF h0, of _ "''2''" "''base''"]
  from inst [of db_failed] h1 obtain tr where
    "Baseline ?m ''2'' ''base'' db_failed =
       (Some ''unable to baseline: found existing migrations'', db_failed, tr)"
    by blast
  moreover have "snd (snd (Baseline ?m ''2'' ''base'' db_failed))
      = [CallExists True None, CallList (map of_row (history db_failed)) None]"
    by (simp add: run_defs)
  ultimately have c1: "Baseline ?m ''2'' ''base'' db_failed =
       (Some ''unable to baseline: found existing migrations'', db_failed,
        [CallExists True None, CallList (map of_row (history db_failed)) None])"
    by simp
  from inst [of db0] h2 obtain err db' tr1 tr3 where
    b: "Baseline ?m ''2'' ''base'' db0 =
          (err, db', tr1 @ [CallRecord (baseline_record ''2'' ''base'' (clock db0)) None] @ tr3)"
    and mg: "Migrate ?m ?db2 = (err, db', tr3)"
    and all: "err = None \<longrightarrow>
       map ident (filter (\<lambda>g. \<not> IsRepeatable g) (executed tr3)) =
       map ident (filter (\<lambda>g. \<not> LEQ (Version g) ''2'') ?seq)"
    by blast
  have ev: "fst (Migrate ?m ?db2) = None"
    and hist: "map col_version (history (fst (snd (Migrate ?m ?db2)))) = [''2'', ''3'']"
    and ranks: "map col_rank (history (fst (snd (Migrate ?m ?db2)))) = [1, 2]"
    by (simp_all add: run_defs parse_defs baseline_record_def)
  from ev mg have e: "err = None"
    by simp
  have f: "map ident (filter (\<lambda>g. \<not> LEQ (Version g) ''2'') ?seq) = [(''3'', ''c'', ''Go'', [])]"
    by (simp add: ident_def run_defs parse_defs)
  from all e f have c2: "map ident (filter (\<lambda>g. \<not> IsRepeatable g)
      (executed (snd (snd (Migrate ?m ?db2))))) = [(''3'', ''c'', ''Go'', [])]"
    by (simp add: mg)
  from b e have c3: "fst (Baseline ?m ''2'' ''base'' db0) = None"
    by simp
  from b mg hist ranks
  have c4: "map col_version (history (fst (snd (Baseline ?m ''2'' ''base'' db0)))) = [''2'', ''3'']"
    and c5: "map col_rank (history (fst (snd (Baseline ?m ''2'' ''base'' db0)))) = [1, 2]"
    by simp_all
  from h0 h1 c1 h2 c3 c2 c4 c5 show ?thesis
    by blast
qed

end
